theory Spec2Isabelle
  imports Main "HOL-Library.AList" "HOL-Library.Char_ord" "HOL-Library.List_Lexorder"
begin

section \<open>Errors\<close>

text \<open>
  One constructor per \<^verbatim>\<open>raise\<close> site of \<^verbatim>\<open>factory/base.py\<close>, carrying the
  arguments of the message's format string instead of the formatted text. A factory
  class and its \<^verbatim>\<open>_meta\<close> options object are one heap object here, named by a
  reference; \<open>InvalidReference\<close> stands for a reference with no object behind it and
  \<open>RecursionError\<close> for the interpreter's bounded call stack. \<open>TypeError n\<close> is what
  the interpreter raises when a call passes the keyword \<open>n\<close> to a function whose
  positional parameter \<open>n\<close> is already bound (\<^verbatim>\<open>got multiple values for argument\<close>).
\<close>

type_synonym fref = nat
type_synonym cref = nat

datatype error =
    UnknownStrategy string
  | FactoryError string
  | ResetDescendantError fref fref
  | UnrequestedFieldError string
  | MetaTypeError fref "string list"
  | CyclicDefinitionError fref "string list"
  | KeyError string
  | AssertionError
  | NotImplementedError
  | RecursionError
  | InvalidReference nat
  | TypeError string

section \<open>Target types\<close>

text \<open>
  A Python class is an object with an identity: \<open>class_id\<close> is the identity of the class
  object, so two classes defined apart differ even when they have the same name and the
  same bases. \<open>Object\<close> is the built-in \<^verbatim>\<open>object\<close>, which every class has as an
  ancestor whether its \<^verbatim>\<open>class\<close> statement lists it or not. \<open>virtual d\<close> holds the
  identities of the classes that the \<^verbatim>\<open>__subclasscheck__\<close> of \<open>d\<close> accepts although
  \<open>d\<close> is not among their ancestors (the classes registered with an abstract base class
  \<open>d\<close>); it is empty for a class whose metaclass is \<^verbatim>\<open>type\<close>.
\<close>

datatype pyclass =
    Object
  | PyClass (class_id: nat) (cname: string) (bases: "pyclass list") (virtual: "nat list")

text \<open>
  \<^verbatim>\<open>issubclass(c, d)\<close>: \<open>d\<close> is \<open>c\<close> itself, or \<^verbatim>\<open>object\<close>, or \<open>c\<close> is registered
  with \<open>d\<close>, or a base of \<open>c\<close> is a subclass of \<open>d\<close>.
\<close>

fun issubclass :: "pyclass \<Rightarrow> pyclass \<Rightarrow> bool" where
  "issubclass Object d = (d = Object)"
| "issubclass (PyClass i n bs vs) d =
     (PyClass i n bs vs = d \<or> d = Object
      \<or> (case d of Object \<Rightarrow> False | PyClass j m ds ws \<Rightarrow> i \<in> set ws)
      \<or> list_ex (\<lambda>b. issubclass b d) bs)"

section \<open>Options objects and the store\<close>

text \<open>
  \<^verbatim>\<open>FactoryOptions\<close> after \<^verbatim>\<open>contribute_to_class\<close>: the fields set by
  \<^verbatim>\<open>__init__\<close>, then those set from the option defaults. \<open>counter\<close> is the
  \<^verbatim>\<open>_counter\<close> field: \<open>None\<close>, or the address of a \<^verbatim>\<open>_Counter\<close> object.
\<close>

record ('d, 'p) options =
  factory_name :: string
  base_factory :: "fref option"
  base_declarations :: "(string \<times> 'd) list"
  parameters :: "(string \<times> 'p) list"
  pre_declarations :: "(string \<times> 'd) list"
  post_declarations :: "(string \<times> 'd) list"
  counter :: "cref option"
  counter_reference :: fref
  model :: "pyclass option"
  abstract :: bool
  strategy :: string
  inline_args :: "string list"
  exclude :: "string list"
  rename :: "(string \<times> string) list"
  introspector_class :: "string option"
  default_auto_fields :: bool
  include_auto_fields :: "string list"
  exclude_auto_fields :: "string list"

text \<open>
  The store holds every registered options object (a reference is its index) and every
  \<^verbatim>\<open>_Counter\<close> object (its \<^verbatim>\<open>seq\<close> field, at its address).
\<close>

record ('d, 'p) store =
  metas :: "('d, 'p) options list"
  counters :: "int list"

definition lookup :: "('d, 'p) store \<Rightarrow> fref \<Rightarrow> ('d, 'p) options option" where
  "lookup st f = (if f < length (metas st) then Some (metas st ! f) else None)"

definition set_counter :: "fref \<Rightarrow> cref option \<Rightarrow> ('d, 'p) store \<Rightarrow> ('d, 'p) store" where
  "set_counter f c st = st\<lparr>metas := (metas st)[f := (metas st ! f)\<lparr>counter := c\<rparr>]\<rparr>"

section \<open>Counters\<close>

text \<open>\<^verbatim>\<open>_Counter(seq)\<close>: allocate a counter object holding \<open>seq\<close>.\<close>

definition new_Counter :: "int \<Rightarrow> ('d, 'p) store \<Rightarrow> cref \<times> ('d, 'p) store" where
  "new_Counter seq st = (length (counters st), st\<lparr>counters := counters st @ [seq]\<rparr>)"

text \<open>\<^verbatim>\<open>_Counter.next\<close>: return \<^verbatim>\<open>seq\<close>, then add one to it.\<close>

definition Counter_next :: "cref \<Rightarrow> ('d, 'p) store \<Rightarrow> error + (int \<times> ('d, 'p) store)" where
  "Counter_next a st =
     (if a < length (counters st)
      then Inr (counters st ! a, st\<lparr>counters := (counters st)[a := counters st ! a + 1]\<rparr>)
      else Inl (InvalidReference a))"

text \<open>\<^verbatim>\<open>_Counter.reset\<close>: \<^verbatim>\<open>seq\<close> becomes \<open>next_value\<close>.\<close>

definition Counter_reset :: "cref \<Rightarrow> int \<Rightarrow> ('d, 'p) store \<Rightarrow> error + ('d, 'p) store" where
  "Counter_reset a next_value st =
     (if a < length (counters st)
      then Inr (st\<lparr>counters := (counters st)[a := next_value]\<rparr>)
      else Inl (InvalidReference a))"

text \<open>
  \<^verbatim>\<open>FactoryOptions._get_counter_reference\<close>, for the options object \<open>self\<close> under
  construction, whose \<^verbatim>\<open>model\<close> and \<^verbatim>\<open>base_factory\<close> are already set.
\<close>

definition get_counter_reference ::
  "('d, 'p) store \<Rightarrow> fref \<Rightarrow> pyclass option \<Rightarrow> fref option \<Rightarrow> error + fref" where
  "get_counter_reference st self self_model self_base =
     (case self_model of
        None \<Rightarrow> Inr self
      | Some m \<Rightarrow>
          (case self_base of
             None \<Rightarrow> Inr self
           | Some b \<Rightarrow>
               (case lookup st b of
                  None \<Rightarrow> Inl (InvalidReference b)
                | Some bm \<Rightarrow>
                    (case model bm of
                       None \<Rightarrow> Inr self
                     | Some mb \<Rightarrow>
                         if issubclass m mb then Inr (counter_reference bm) else Inr self))))"

text \<open>
  \<^verbatim>\<open>FactoryOptions._initialize_counter\<close>. The first argument is the number of call
  frames left; \<open>setup_seq f\<close> is what \<^verbatim>\<open>f._setup_next_sequence()\<close> returns (0 unless a
  factory overrides the hook).
\<close>

fun initialize_counter ::
  "nat \<Rightarrow> (fref \<Rightarrow> int) \<Rightarrow> fref \<Rightarrow> ('d, 'p) store \<Rightarrow> error + ('d, 'p) store" where
  "initialize_counter 0 setup_seq self st = Inl RecursionError"
| "initialize_counter (Suc depth) setup_seq self st =
     (case lookup st self of
        None \<Rightarrow> Inl (InvalidReference self)
      | Some m \<Rightarrow>
          (case counter m of
             Some c \<Rightarrow> Inr st
           | None \<Rightarrow>
               if counter_reference m = self
               then (case new_Counter (setup_seq self) st of
                       (c, st') \<Rightarrow> Inr (set_counter self (Some c) st'))
               else (case initialize_counter depth setup_seq (counter_reference m) st of
                       Inl e \<Rightarrow> Inl e
                     | Inr st' \<Rightarrow>
                         (case lookup st' (counter_reference m) of
                            None \<Rightarrow> Inl (InvalidReference (counter_reference m))
                          | Some r \<Rightarrow> Inr (set_counter self (counter r) st')))))"

text \<open>\<^verbatim>\<open>FactoryOptions.next_sequence\<close>. After \<^verbatim>\<open>_initialize_counter\<close> has returned,
  \<^verbatim>\<open>_counter\<close> is set (lemma \<open>initialize_counter_sets\<close> below), so the branches for
  a missing object or counter are never taken.\<close>

definition next_sequence ::
  "nat \<Rightarrow> (fref \<Rightarrow> int) \<Rightarrow> fref \<Rightarrow> ('d, 'p) store \<Rightarrow> error + (int \<times> ('d, 'p) store)" where
  "next_sequence depth setup_seq self st =
     (case initialize_counter depth setup_seq self st of
        Inl e \<Rightarrow> Inl e
      | Inr st' \<Rightarrow>
          (case lookup st' self of
             None \<Rightarrow> Inl (InvalidReference self)
           | Some m \<Rightarrow>
               (case counter m of
                  None \<Rightarrow> Inl (InvalidReference self)
                | Some c \<Rightarrow> Counter_next c st')))"

text \<open>
  \<^verbatim>\<open>FactoryOptions.reset_sequence(value, force)\<close>; \<open>value = None\<close> asks the owning
  factory's \<^verbatim>\<open>_setup_next_sequence\<close> for the value.
\<close>

definition reset_sequence ::
  "nat \<Rightarrow> (fref \<Rightarrow> int) \<Rightarrow> fref \<Rightarrow> int option \<Rightarrow> bool \<Rightarrow> ('d, 'p) store \<Rightarrow> error + ('d, 'p) store" where
  "reset_sequence depth setup_seq self val force st =
     (case initialize_counter depth setup_seq self st of
        Inl e \<Rightarrow> Inl e
      | Inr st' \<Rightarrow>
          (case lookup st' self of
             None \<Rightarrow> Inl (InvalidReference self)
           | Some m \<Rightarrow>
               if counter_reference m \<noteq> self \<and> \<not> force
               then Inl (ResetDescendantError self (counter_reference m))
               else (case counter m of
                       None \<Rightarrow> Inl (InvalidReference self)
                     | Some c \<Rightarrow>
                         Counter_reset c
                           (case val of None \<Rightarrow> setup_seq (counter_reference m) | Some v \<Rightarrow> v)
                           st')))"

section \<open>Definition-time registration\<close>

text \<open>
  A \<^verbatim>\<open>class Meta\<close> block: for each recognised option, \<open>Some v\<close> when the block has
  the attribute and \<open>None\<close> when it has not; \<open>meta_other\<close> lists the names of every other
  attribute of the block.
\<close>

record meta_class =
  meta_model :: "pyclass option option"
  meta_abstract :: "bool option"
  meta_strategy :: "string option"
  meta_inline_args :: "string list option"
  meta_exclude :: "string list option"
  meta_rename :: "(string \<times> string) list option"
  meta_introspector_class :: "string option option"
  meta_default_auto_fields :: "bool option"
  meta_include_auto_fields :: "string list option"
  meta_exclude_auto_fields :: "string list option"
  meta_other :: "string list"

text \<open>
  What \<^verbatim>\<open>FactoryMetaClass.__new__\<close> hands to \<^verbatim>\<open>contribute_to_class\<close> about the
  class being defined. \<open>cd_mro\<close> is \<^verbatim>\<open>factory.__mro__[1:]\<close>: \<open>Some f\<close> for a registered
  factory, \<open>None\<close> for a class that contributes nothing (one without \<^verbatim>\<open>_meta\<close>, or
  \<^verbatim>\<open>BaseFactory\<close>, whose options object is never filled).
\<close>

record 'd class_def =
  cd_name :: string
  cd_mro :: "fref option list"
  cd_attrs :: "(string \<times> 'd) list"
  cd_meta :: "meta_class option"
  cd_params :: "(string \<times> 'd) list option"
  cd_base_meta :: "fref option"
  cd_base_factory :: "fref option"

text \<open>
  \<^verbatim>\<open>factory/base.py\<close> calls four modules of the package whose sources are not at
  hand (\<^verbatim>\<open>builder\<close>, \<^verbatim>\<open>declarations\<close>, \<^verbatim>\<open>enums\<close>, \<^verbatim>\<open>utils\<close>) and pluggable
  introspector classes. What it calls there is a parameter of the model:
  \<^verbatim>\<open>isinstance(value, (classmethod, staticmethod))\<close>, \<^verbatim>\<open>enums.get_builder_phase\<close>,
  the introspector's \<^verbatim>\<open>get_default_field_names\<close> and \<^verbatim>\<open>build_declarations\<close>,
  \<^verbatim>\<open>utils.sort_ordered_objects\<close> (on class attributes and on parameters),
  \<^verbatim>\<open>SimpleParameter.wrap\<close>, \<^verbatim>\<open>isinstance(parameter, Parameter)\<close>,
  \<^verbatim>\<open>Parameter.get_revdeps\<close>, \<^verbatim>\<open>Parameter.as_declarations\<close> and
  \<^verbatim>\<open>builder.parse_declarations\<close>. An introspector class is named by the value of the
  \<^verbatim>\<open>introspector_class\<close> option (\<open>None\<close>: the default class).
\<close>

record ('d, 'p) collaborators =
  is_method :: "'d \<Rightarrow> bool"
  has_builder_phase :: "'d \<Rightarrow> bool"
  get_default_field_names :: "string option \<Rightarrow> pyclass option \<Rightarrow> error + string list"
  build_declarations ::
    "string option \<Rightarrow> string set \<Rightarrow> string set \<Rightarrow> error + (string \<times> 'd) list"
  sort_ordered_objects :: "(string \<times> 'd) list \<Rightarrow> (string \<times> 'd) list"
  sort_ordered_parameters :: "(string \<times> 'p) list \<Rightarrow> (string \<times> 'p) list"
  wrap :: "'d \<Rightarrow> 'p"
  is_Parameter :: "'p \<Rightarrow> bool"
  get_revdeps :: "'p \<Rightarrow> (string \<times> 'p) list \<Rightarrow> string list"
  as_declarations :: "string \<Rightarrow> 'p \<Rightarrow> (string \<times> 'd) list \<Rightarrow> (string \<times> 'd) list"
  parse_declarations ::
    "(string \<times> 'd) list \<Rightarrow> error + ((string \<times> 'd) list \<times> (string \<times> 'd) list)"

text \<open>\<^verbatim>\<open>name.startswith('_')\<close>.\<close>

definition is_private :: "string \<Rightarrow> bool" where
  "is_private name = (case name of [] \<Rightarrow> False | c # cs \<Rightarrow> c = CHR ''_'')"

text \<open>\<^verbatim>\<open>d.update(other)\<close> on insertion-ordered dictionaries.\<close>

definition dict_update :: "('k \<times> 'v) list \<Rightarrow> ('k \<times> 'v) list \<Rightarrow> ('k \<times> 'v) list" where
  "dict_update d other = foldl (\<lambda>acc (k, v). AList.update k v acc) d other"

text \<open>\<^verbatim>\<open>FactoryOptions.__init__\<close>; the option fields are placeholders until
  \<^verbatim>\<open>_fill_from_meta\<close> sets them, and \<open>counter_reference\<close> until
  \<^verbatim>\<open>contribute_to_class\<close> does.\<close>

definition FactoryOptions_init :: "string \<Rightarrow> fref \<Rightarrow> ('d, 'p) options" where
  "FactoryOptions_init name self =
     \<lparr>factory_name = name, base_factory = None, base_declarations = [], parameters = [],
      pre_declarations = [], post_declarations = [], counter = None,
      counter_reference = self, model = None, abstract = False, strategy = [],
      inline_args = [], exclude = [], rename = [], introspector_class = None,
      default_auto_fields = False, include_auto_fields = [], exclude_auto_fields = []\<rparr>"

text \<open>Modelled from the spec: the three strategy constants of the \<^verbatim>\<open>enums\<close> module,
  whose source is not at hand. The specification names the strategies build, create and
  stub, and \<^verbatim>\<open>BaseFactory.generate\<close> looks the method of that name up on the class.\<close>

definition BUILD_STRATEGY :: string where "BUILD_STRATEGY = ''build''"
definition CREATE_STRATEGY :: string where "CREATE_STRATEGY = ''create''"
definition STUB_STRATEGY :: string where "STUB_STRATEGY = ''stub''"

text \<open>\<^verbatim>\<open>OptionDefault.apply\<close>, for an option with no checker (none of the defaults
  has one).\<close>

definition apply_option ::
  "'a \<Rightarrow> bool \<Rightarrow> (meta_class \<Rightarrow> 'a option) \<Rightarrow> (('d, 'p) options \<Rightarrow> 'a) \<Rightarrow>
   meta_class option \<Rightarrow> ('d, 'p) options option \<Rightarrow> 'a" where
  "apply_option dflt inherit meta_attr base_attr meta base_meta =
     (let v = (if inherit then (case base_meta of None \<Rightarrow> dflt | Some bm \<Rightarrow> base_attr bm)
               else dflt)
      in case meta of
           None \<Rightarrow> v
         | Some mt \<Rightarrow> (case meta_attr mt of None \<Rightarrow> v | Some v' \<Rightarrow> v'))"

definition option_names :: "string list" where
  "option_names = [''model'', ''abstract'', ''strategy'', ''inline_args'', ''exclude'',
     ''rename'', ''introspector_class'', ''default_auto_fields'', ''include_auto_fields'',
     ''exclude_auto_fields'']"

text \<open>\<^verbatim>\<open>FactoryOptions._fill_from_meta\<close>, with the defaults of
  \<^verbatim>\<open>_build_default_options\<close>.\<close>

definition fill_from_meta ::
  "fref \<Rightarrow> ('d, 'p) options \<Rightarrow> meta_class option \<Rightarrow> ('d, 'p) options option \<Rightarrow>
   error + ('d, 'p) options" where
  "fill_from_meta self_ref self meta base_meta =
     (let meta_attrs = (case meta of
                          None \<Rightarrow> []
                        | Some mt \<Rightarrow> filter (\<lambda>k. \<not> is_private k) (meta_other mt));
          meta_attrs = filter (\<lambda>k. k \<notin> set option_names) meta_attrs
      in if meta_attrs \<noteq> [] then Inl (MetaTypeError self_ref (sort meta_attrs))
         else Inr (self
           \<lparr>model := apply_option None True meta_model model meta base_meta,
            abstract := apply_option False False meta_abstract abstract meta base_meta,
            strategy := apply_option CREATE_STRATEGY True meta_strategy strategy meta base_meta,
            inline_args := apply_option [] True meta_inline_args inline_args meta base_meta,
            exclude := apply_option [] True meta_exclude exclude meta base_meta,
            rename := apply_option [] True meta_rename rename meta base_meta,
            introspector_class :=
              apply_option None True meta_introspector_class introspector_class meta base_meta,
            default_auto_fields :=
              apply_option False True meta_default_auto_fields default_auto_fields meta base_meta,
            include_auto_fields :=
              apply_option [] False meta_include_auto_fields include_auto_fields meta base_meta,
            exclude_auto_fields :=
              apply_option [] False meta_exclude_auto_fields exclude_auto_fields meta base_meta\<rparr>))"

text \<open>\<^verbatim>\<open>FactoryOptions._is_declaration\<close>.\<close>

definition is_declaration :: "('d, 'p) collaborators \<Rightarrow> string \<Rightarrow> 'd \<Rightarrow> bool" where
  "is_declaration env name v =
     (if is_method env v then False
      else if has_builder_phase env v then True
      else \<not> is_private name)"

text \<open>The options objects of \<^verbatim>\<open>[f for f in parents if hasattr(f, '_meta')]\<close>.\<close>

fun parent_metas :: "('d, 'p) store \<Rightarrow> fref option list \<Rightarrow> error + ('d, 'p) options list" where
  "parent_metas st [] = Inr []"
| "parent_metas st (None # ps) = parent_metas st ps"
| "parent_metas st (Some p # ps) =
     (case lookup st p of
        None \<Rightarrow> Inl (InvalidReference p)
      | Some m \<Rightarrow> (case parent_metas st ps of Inl e \<Rightarrow> Inl e | Inr ms \<Rightarrow> Inr (m # ms)))"

text \<open>
  Lines 363 to 377 of \<^verbatim>\<open>contribute_to_class\<close>: the candidate field names and the skip
  set handed to the introspector. \<open>defaults\<close> is what
  \<^verbatim>\<open>get_default_field_names\<close> returned, \<open>factory_parents\<close> the ancestors' options from
  the furthest to the nearest.
\<close>

definition auto_field_names ::
  "string list \<Rightarrow> ('d, 'p) options list \<Rightarrow> ('d, 'p) options \<Rightarrow> string set \<times> string set" where
  "auto_field_names defaults factory_parents self =
     (let field_names = {};
          field_names = (if default_auto_fields self then field_names \<union> set defaults
                         else field_names);
          field_names = foldl (\<lambda>names parent.
                            (names \<union> set (include_auto_fields parent))
                              - set (exclude_auto_fields parent))
                          field_names factory_parents;
          field_names = field_names \<union> set (include_auto_fields self);
          exclude_auto = set (map fst (base_declarations self));
          exclude_auto = exclude_auto \<union> set (exclude_auto_fields self);
          field_names = field_names - exclude_auto
      in (field_names, exclude_auto))"

text \<open>Lines 381 to 386: store the introspector's declarations, refusing a field that
  was not asked for.\<close>

fun add_auto_declarations ::
  "string set \<Rightarrow> (string \<times> 'd) list \<Rightarrow> (string \<times> 'd) list \<Rightarrow> error + (string \<times> 'd) list" where
  "add_auto_declarations field_names [] decls = Inr decls"
| "add_auto_declarations field_names ((field_name, auto_declaration) # rest) decls =
     (if field_name \<notin> field_names then Inl (UnrequestedFieldError field_name)
      else add_auto_declarations field_names rest
             (AList.update field_name auto_declaration decls))"

section \<open>Parameter dependencies\<close>

text \<open>\<^verbatim>\<open>collections.defaultdict(set)\<close>, insertion-ordered: reading a missing key
  stores the empty set under it.\<close>

definition dd_touch :: "'k \<Rightarrow> ('k \<times> 'v set) list \<Rightarrow> ('k \<times> 'v set) list" where
  "dd_touch k d = (case map_of d k of None \<Rightarrow> d @ [(k, {})] | Some s \<Rightarrow> d)"

definition dd_get :: "('k \<times> 'v set) list \<Rightarrow> 'k \<Rightarrow> 'v set" where
  "dd_get d k = (case map_of d k of None \<Rightarrow> {} | Some s \<Rightarrow> s)"

text \<open>One round of the loop of \<^verbatim>\<open>_check_parameter_dependencies\<close>, for a parameter
  with the non-empty reverse dependencies \<open>field_revdeps\<close>.\<close>

definition add_revdeps ::
  "string \<Rightarrow> string list \<Rightarrow>
   (string \<times> string set) list \<times> (string \<times> string set) list \<Rightarrow>
   (string \<times> string set) list \<times> (string \<times> string set) list" where
  "add_revdeps name field_revdeps acc =
     (case acc of (deep_revdeps, deps) \<Rightarrow>
        let deep_revdeps = foldl (\<lambda>d dep. dd_touch dep d) deep_revdeps field_revdeps;
            united = \<Union> (set (map (dd_get deep_revdeps) field_revdeps));
            deep_revdeps = AList.update name united deep_revdeps;
            deep_revdeps = AList.update name (dd_get deep_revdeps name \<union> set field_revdeps)
                             deep_revdeps;
            deps = foldl (\<lambda>d dep. AList.update dep (insert name (dd_get d dep)) d)
                     deps field_revdeps
        in (deep_revdeps, deps))"

fun scan_parameters ::
  "('d, 'p) collaborators \<Rightarrow> (string \<times> 'p) list \<Rightarrow> (string \<times> 'p) list \<Rightarrow>
   (string \<times> string set) list \<times> (string \<times> string set) list \<Rightarrow>
   (string \<times> string set) list \<times> (string \<times> string set) list" where
  "scan_parameters env params [] acc = acc"
| "scan_parameters env params ((name, parameter) # rest) acc =
     (if is_Parameter env parameter
      then (let field_revdeps = get_revdeps env parameter params
            in if field_revdeps = [] then scan_parameters env params rest acc
               else scan_parameters env params rest (add_revdeps name field_revdeps acc))
      else scan_parameters env params rest acc)"

text \<open>\<^verbatim>\<open>FactoryOptions._check_parameter_dependencies\<close>; the error carries the
  factory and the list that the message joins with commas.\<close>

definition check_parameter_dependencies ::
  "('d, 'p) collaborators \<Rightarrow> fref \<Rightarrow> (string \<times> 'p) list \<Rightarrow>
   error + (string \<times> string set) list" where
  "check_parameter_dependencies env self_ref params =
     (case scan_parameters env params params ([], []) of (deep_revdeps, deps) \<Rightarrow>
        let cyclic = map fst (filter (\<lambda>(name, field_deps). name \<in> field_deps) deep_revdeps)
        in if cyclic \<noteq> [] then Inl (CyclicDefinitionError self_ref cyclic) else Inr deps)"

text \<open>The \<^verbatim>\<open>declarations\<close> property of \<^verbatim>\<open>FactoryOptions\<close>.\<close>

definition declarations :: "('d, 'p) collaborators \<Rightarrow> ('d, 'p) options \<Rightarrow> (string \<times> 'd) list" where
  "declarations env self =
     foldl (\<lambda>decls (name, param). dict_update decls (as_declarations env name param decls))
       (base_declarations self) (sort_ordered_parameters env (parameters self))"

text \<open>Lines 350 to 360 of \<^verbatim>\<open>contribute_to_class\<close>: the declarations and parameters
  of the ancestors, from the furthest to the nearest, then the class's own declarations.\<close>

definition collect_declarations ::
  "('d, 'p) collaborators \<Rightarrow> 'd class_def \<Rightarrow> ('d, 'p) options list \<Rightarrow> ('d, 'p) options \<Rightarrow>
   ('d, 'p) options" where
  "collect_declarations env cd factory_parents self =
     (let self = self
            \<lparr>base_declarations :=
               foldl (\<lambda>d parent. dict_update d (base_declarations parent))
                 (base_declarations self) factory_parents,
             parameters :=
               foldl (\<lambda>d parent. dict_update d (parameters parent))
                 (parameters self) factory_parents\<rparr>
      in self
            \<lparr>base_declarations :=
               dict_update (base_declarations self)
                 (filter (\<lambda>(k, v). is_declaration env k v) (cd_attrs cd))\<rparr>)"

text \<open>Lines 362 to 386: the declarations after auto-field derivation.\<close>

definition derive_auto_fields ::
  "('d, 'p) collaborators \<Rightarrow> ('d, 'p) options list \<Rightarrow> ('d, 'p) options \<Rightarrow>
   error + (string \<times> 'd) list" where
  "derive_auto_fields env factory_parents self =
     (if \<not> abstract self \<and> (default_auto_fields self \<or> include_auto_fields self \<noteq> [])
      then (case (if default_auto_fields self
                  then get_default_field_names env (introspector_class self) (model self)
                  else Inr []) of
              Inl e \<Rightarrow> Inl e
            | Inr defaults \<Rightarrow>
                (case auto_field_names defaults factory_parents self of
                   (field_names, exclude_auto) \<Rightarrow>
                     (case build_declarations env (introspector_class self)
                             field_names exclude_auto of
                        Inl e \<Rightarrow> Inl e
                      | Inr auto_declarations \<Rightarrow>
                          add_auto_declarations field_names auto_declarations
                            (base_declarations self))))
      else Inr (base_declarations self))"

text \<open>Lines 388 to 391: the class's own \<^verbatim>\<open>Params\<close>, wrapped.\<close>

definition collect_parameters ::
  "('d, 'p) collaborators \<Rightarrow> 'd class_def \<Rightarrow> ('d, 'p) options \<Rightarrow> ('d, 'p) options" where
  "collect_parameters env cd self =
     (case cd_params cd of
        None \<Rightarrow> self
      | Some items \<Rightarrow>
          self\<lparr>parameters :=
            dict_update (parameters self)
              (map (\<lambda>(k, v). (k, wrap env v))
                 (filter (\<lambda>(k, v). \<not> is_private k) (sort_ordered_objects env items)))\<rparr>)"

text \<open>Lines 393 to 395: the dependency check, then the split into pre- and
  post-declarations; the finished options object is stored.\<close>

definition finish_registration ::
  "('d, 'p) collaborators \<Rightarrow> fref \<Rightarrow> ('d, 'p) options \<Rightarrow> ('d, 'p) store \<Rightarrow>
   error + ('d, 'p) store" where
  "finish_registration env self_ref self st =
     (case check_parameter_dependencies env self_ref (parameters self) of
        Inl e \<Rightarrow> Inl e
      | Inr deps \<Rightarrow>
          (case parse_declarations env (declarations env self) of
             Inl e \<Rightarrow> Inl e
           | Inr (pre, post) \<Rightarrow>
               Inr (st\<lparr>metas := metas st @
                      [self\<lparr>pre_declarations := pre, post_declarations := post\<rparr>]\<rparr>)))"

text \<open>The \<^verbatim>\<open>base_meta\<close> argument, read from the store.\<close>

definition resolve_base_meta ::
  "('d, 'p) store \<Rightarrow> fref option \<Rightarrow> error + ('d, 'p) options option" where
  "resolve_base_meta st base_meta =
     (case base_meta of
        None \<Rightarrow> Inr None
      | Some b \<Rightarrow> (case lookup st b of
                    None \<Rightarrow> Inl (InvalidReference b)
                  | Some bm \<Rightarrow> Inr (Some bm)))"

text \<open>Lines 344 to 346: a definition without a model is abstract.\<close>

definition force_abstract :: "('d, 'p) options \<Rightarrow> ('d, 'p) options" where
  "force_abstract self = (if model self = None then self\<lparr>abstract := True\<rparr> else self)"

text \<open>
  \<^verbatim>\<open>FactoryOptions.contribute_to_class\<close>. The new options object gets the next free
  reference; when registration raises, the store is left as it was.
\<close>

definition contribute_to_class ::
  "('d, 'p) collaborators \<Rightarrow> 'd class_def \<Rightarrow> ('d, 'p) store \<Rightarrow> error + ('d, 'p) store" where
  "contribute_to_class env cd st =
     (let self_ref = length (metas st);
          self0 = (FactoryOptions_init (cd_name cd) self_ref)\<lparr>base_factory := cd_base_factory cd\<rparr>
      in (case resolve_base_meta st (cd_base_meta cd) of
            Inl e \<Rightarrow> Inl e
          | Inr base_meta \<Rightarrow>
         (case fill_from_meta self_ref self0 (cd_meta cd) base_meta of
            Inl e \<Rightarrow> Inl e
          | Inr self1 \<Rightarrow>
         (case get_counter_reference st self_ref (model (force_abstract self1))
                 (base_factory self1) of
            Inl e \<Rightarrow> Inl e
          | Inr r \<Rightarrow>
         (case parent_metas st (rev (cd_mro cd)) of
            Inl e \<Rightarrow> Inl e
          | Inr factory_parents \<Rightarrow>
         (let self2 = collect_declarations env cd factory_parents
                        ((force_abstract self1)\<lparr>counter_reference := r\<rparr>)
          in (case derive_auto_fields env factory_parents self2 of
                Inl e \<Rightarrow> Inl e
              | Inr decls \<Rightarrow>
                  finish_registration env self_ref
                    (collect_parameters env cd (self2\<lparr>base_declarations := decls\<rparr>)) st)))))))"

section \<open>Generating objects\<close>

text \<open>
  \<^verbatim>\<open>BaseFactory._generate\<close>. \<open>step_build cls params strategy\<close> stands for
  \<^verbatim>\<open>builder.StepBuilder(cls._meta, params, strategy).build()\<close> of the missing
  \<^verbatim>\<open>builder\<close> module.
\<close>

definition generate ::
  "(fref \<Rightarrow> 'k \<Rightarrow> string \<Rightarrow> ('d, 'p) store \<Rightarrow> error + ('o \<times> ('d, 'p) store)) \<Rightarrow>
   fref \<Rightarrow> string \<Rightarrow> 'k \<Rightarrow> ('d, 'p) store \<Rightarrow> error + ('o \<times> ('d, 'p) store)" where
  "generate step_build cls strat params st =
     (case lookup st cls of
        None \<Rightarrow> Inl (InvalidReference cls)
      | Some m \<Rightarrow>
          if abstract m then Inl (FactoryError (factory_name m))
          else step_build cls params strat st)"

text \<open>\<^verbatim>\<open>BaseFactory.build\<close>, \<^verbatim>\<open>create\<close> and \<^verbatim>\<open>stub\<close>.\<close>

definition build ::
  "(fref \<Rightarrow> 'k \<Rightarrow> string \<Rightarrow> ('d, 'p) store \<Rightarrow> error + ('o \<times> ('d, 'p) store)) \<Rightarrow>
   fref \<Rightarrow> 'k \<Rightarrow> ('d, 'p) store \<Rightarrow> error + ('o \<times> ('d, 'p) store)" where
  "build step_build cls kwargs st = generate step_build cls BUILD_STRATEGY kwargs st"

definition create ::
  "(fref \<Rightarrow> 'k \<Rightarrow> string \<Rightarrow> ('d, 'p) store \<Rightarrow> error + ('o \<times> ('d, 'p) store)) \<Rightarrow>
   fref \<Rightarrow> 'k \<Rightarrow> ('d, 'p) store \<Rightarrow> error + ('o \<times> ('d, 'p) store)" where
  "create step_build cls kwargs st = generate step_build cls CREATE_STRATEGY kwargs st"

definition stub ::
  "(fref \<Rightarrow> 'k \<Rightarrow> string \<Rightarrow> ('d, 'p) store \<Rightarrow> error + ('o \<times> ('d, 'p) store)) \<Rightarrow>
   fref \<Rightarrow> 'k \<Rightarrow> ('d, 'p) store \<Rightarrow> error + ('o \<times> ('d, 'p) store)" where
  "stub step_build cls kwargs st = generate step_build cls STUB_STRATEGY kwargs st"

text \<open>\<^verbatim>\<open>FactoryMetaClass.__call__\<close>: the default-strategy call \<^verbatim>\<open>Factory(**kwargs)\<close>.\<close>

definition factory_call ::
  "(fref \<Rightarrow> 'k \<Rightarrow> string \<Rightarrow> ('d, 'p) store \<Rightarrow> error + ('o \<times> ('d, 'p) store)) \<Rightarrow>
   fref \<Rightarrow> 'k \<Rightarrow> ('d, 'p) store \<Rightarrow> error + ('o \<times> ('d, 'p) store)" where
  "factory_call step_build cls kwargs st =
     (case lookup st cls of
        None \<Rightarrow> Inl (InvalidReference cls)
      | Some m \<Rightarrow>
          if strategy m = BUILD_STRATEGY then build step_build cls kwargs st
          else if strategy m = CREATE_STRATEGY then create step_build cls kwargs st
          else if strategy m = STUB_STRATEGY then stub step_build cls kwargs st
          else Inl (UnknownStrategy (strategy m)))"

section \<open>Preparing arguments and instantiating\<close>

text \<open>An attribute value: the \<^verbatim>\<open>declarations.SKIP\<close> sentinel, or anything else.\<close>

datatype 'v attr_value = SKIP | Val 'v

text \<open>Step 3 of \<^verbatim>\<open>prepare_arguments\<close>:
  \<^verbatim>\<open>kwargs[new_name] = kwargs.pop(old_name)\<close> for each item of the rename map.\<close>

fun rename_fields ::
  "(string \<times> string) list \<Rightarrow> (string \<times> 'a) list \<Rightarrow> error + (string \<times> 'a) list" where
  "rename_fields [] kwargs = Inr kwargs"
| "rename_fields ((old_name, new_name) # rest) kwargs =
     (case map_of kwargs old_name of
        None \<Rightarrow> Inl (KeyError old_name)
      | Some v \<Rightarrow> rename_fields rest (AList.update new_name v (AList.delete old_name kwargs)))"

text \<open>Step 4: \<^verbatim>\<open>tuple(kwargs.pop(arg_name) for arg_name in self.inline_args)\<close>.\<close>

fun extract_inline_args ::
  "string list \<Rightarrow> (string \<times> 'a) list \<Rightarrow> error + ('a list \<times> (string \<times> 'a) list)" where
  "extract_inline_args [] kwargs = Inr ([], kwargs)"
| "extract_inline_args (arg_name # rest) kwargs =
     (case map_of kwargs arg_name of
        None \<Rightarrow> Inl (KeyError arg_name)
      | Some v \<Rightarrow>
          (case extract_inline_args rest (AList.delete arg_name kwargs) of
             Inl e \<Rightarrow> Inl e
           | Inr (args, kwargs') \<Rightarrow> Inr (v # args, kwargs')))"

text \<open>Step 2: the entries \<^verbatim>\<open>prepare_arguments\<close> keeps.\<close>

definition visible :: "('d, 'p) options \<Rightarrow> string \<times> 'v attr_value \<Rightarrow> bool" where
  "visible self kv =
     (fst kv \<notin> set (exclude self) \<and> fst kv \<notin> set (map fst (parameters self)) \<and> snd kv \<noteq> SKIP)"

text \<open>\<^verbatim>\<open>FactoryOptions.prepare_arguments\<close>; \<open>adjust_kwargs\<close> is the factory's
  \<^verbatim>\<open>_adjust_kwargs\<close> hook (the identity unless overridden).\<close>

definition prepare_arguments ::
  "((string \<times> 'v attr_value) list \<Rightarrow> error + (string \<times> 'v attr_value) list) \<Rightarrow>
   ('d, 'p) options \<Rightarrow> (string \<times> 'v attr_value) list \<Rightarrow>
   error + ('v attr_value list \<times> (string \<times> 'v attr_value) list)" where
  "prepare_arguments adjust_kwargs self attributes =
     (case adjust_kwargs attributes of
        Inl e \<Rightarrow> Inl e
      | Inr kwargs \<Rightarrow>
          (case rename_fields (rename self) (filter (visible self) kwargs) of
             Inl e \<Rightarrow> Inl e
           | Inr kwargs \<Rightarrow> extract_inline_args (inline_args self) kwargs))"

text \<open>What \<^verbatim>\<open>instantiate\<close> returns: an instance made by a hook, or a
  \<^verbatim>\<open>StubObject\<close> with the attributes set from its keyword arguments.\<close>

datatype ('o, 'v) product = Instance 'o | StubObject "(string \<times> 'v) list"

text \<open>\<^verbatim>\<open>StubObject(**kwargs)\<close>: \<^verbatim>\<open>__init__(self, **kwargs)\<close> cannot be passed a
  keyword named \<^verbatim>\<open>self\<close>, the name of its positional parameter; every other keyword
  becomes an attribute of the new object.\<close>

definition new_StubObject :: "(string \<times> 'a) list \<Rightarrow> error + ('o, 'a) product" where
  "new_StubObject kwargs =
     (if ''self'' \<in> set (map fst kwargs) then Inl (TypeError ''self'')
      else Inr (StubObject kwargs))"

text \<open>\<^verbatim>\<open>FactoryOptions.instantiate\<close>; \<open>strat\<close> is \<^verbatim>\<open>step.builder.strategy\<close>, and the
  two hooks are the factory's \<^verbatim>\<open>_build\<close> and \<^verbatim>\<open>_create\<close>.\<close>

definition instantiate ::
  "(pyclass option \<Rightarrow> 'a list \<Rightarrow> (string \<times> 'a) list \<Rightarrow> error + 'o) \<Rightarrow>
   (pyclass option \<Rightarrow> 'a list \<Rightarrow> (string \<times> 'a) list \<Rightarrow> error + 'o) \<Rightarrow>
   ('d, 'p) options \<Rightarrow> string \<Rightarrow> 'a list \<Rightarrow> (string \<times> 'a) list \<Rightarrow> error + ('o, 'a) product" where
  "instantiate build_hook create_hook self strat args kwargs =
     (if strat = BUILD_STRATEGY
      then (case build_hook (model self) args kwargs of Inl e \<Rightarrow> Inl e | Inr x \<Rightarrow> Inr (Instance x))
      else if strat = CREATE_STRATEGY
      then (case create_hook (model self) args kwargs of Inl e \<Rightarrow> Inl e | Inr x \<Rightarrow> Inr (Instance x))
      else if strat = STUB_STRATEGY then new_StubObject kwargs
      else Inl AssertionError)"

section \<open>Sequences of calls and the store invariant\<close>

text \<open>A call on the sequence interface, and a run of such calls: the values that the
  \<^verbatim>\<open>next_sequence\<close> calls return, in order, and the final store.\<close>

datatype seq_call = Next fref | Reset fref "int option" bool

fun run_calls ::
  "nat \<Rightarrow> (fref \<Rightarrow> int) \<Rightarrow> seq_call list \<Rightarrow> ('d, 'p) store \<Rightarrow> error + (int list \<times> ('d, 'p) store)" where
  "run_calls depth setup_seq [] st = Inr ([], st)"
| "run_calls depth setup_seq (Next f # cs) st =
     (case next_sequence depth setup_seq f st of
        Inl e \<Rightarrow> Inl e
      | Inr (v, st') \<Rightarrow>
          (case run_calls depth setup_seq cs st' of
             Inl e \<Rightarrow> Inl e
           | Inr (vs, st'') \<Rightarrow> Inr (v # vs, st'')))"
| "run_calls depth setup_seq (Reset f val force # cs) st =
     (case reset_sequence depth setup_seq f val force st of
        Inl e \<Rightarrow> Inl e
      | Inr st' \<Rightarrow> run_calls depth setup_seq cs st')"

text \<open>
  The invariant of every store built by registration and the sequence interface: a
  counter reference is a registered options object that is its own counter reference,
  and an initialised \<^verbatim>\<open>_counter\<close> is a live counter, the one its counter reference
  holds.
\<close>

definition counters_wf :: "('d, 'p) store \<Rightarrow> bool" where
  "counters_wf st =
     list_all (\<lambda>m.
         counter_reference m < length (metas st)
       \<and> counter_reference (metas st ! counter_reference m) = counter_reference m
       \<and> (case counter m of
            None \<Rightarrow> True
          | Some c \<Rightarrow> c < length (counters st)
                     \<and> counter (metas st ! counter_reference m) = Some c))
       (metas st)"

text \<open>Python's \<^verbatim>\<open>issubclass(c, d) and c is not d\<close>: a proper subtype.\<close>

definition strict_subclass :: "pyclass \<Rightarrow> pyclass \<Rightarrow> bool" where
  "strict_subclass c d = (issubclass c d \<and> c \<noteq> d)"

text \<open>The value the counter owned by \<open>r\<close> delivers next: its \<^verbatim>\<open>seq\<close>, or the
  initial value of \<open>r\<close> while \<open>r\<close> holds no counter yet.\<close>

definition next_value :: "(fref \<Rightarrow> int) \<Rightarrow> ('d, 'p) store \<Rightarrow> fref \<Rightarrow> int" where
  "next_value setup_seq st r =
     (case lookup st r of
        None \<Rightarrow> setup_seq r
      | Some m \<Rightarrow> (case counter m of None \<Rightarrow> setup_seq r | Some c \<Rightarrow> counters st ! c))"

text \<open>The store \<open>st'\<close> that \<^verbatim>\<open>_initialize_counter\<close> on \<open>f\<close> leaves behind.\<close>

definition initialised ::
  "(fref \<Rightarrow> int) \<Rightarrow> fref \<Rightarrow> ('d, 'p) store \<Rightarrow> ('d, 'p) store \<Rightarrow> bool" where
  "initialised setup_seq f st st' =
     (counters_wf st' \<and> map counter_reference (metas st') = map counter_reference (metas st)
    \<and> (\<exists>c. counter (metas st' ! f) = Some c
          \<and> counter (metas st' ! counter_reference (metas st ! f)) = Some c
          \<and> c < length (counters st')
          \<and> counters st' ! c = next_value setup_seq st (counter_reference (metas st ! f))))"

text \<open>
  Counters are not shared across sharing chains: two options objects that hold the same
  counter object have the same counter reference. Together with \<open>counters_wf\<close> this is
  the invariant of every store built by registration and the sequence interface (lemma
  \<open>reachable_invariant\<close> below).
\<close>

definition counters_separate :: "('d, 'p) store \<Rightarrow> bool" where
  "counters_separate st =
     list_all (\<lambda>m1. list_all (\<lambda>m2.
         (case counter m1 of
            None \<Rightarrow> True
          | Some c \<Rightarrow> counter m2 \<noteq> Some c \<or> counter_reference m1 = counter_reference m2))
       (metas st)) (metas st)"

text \<open>The definition a call is made on, whether a call is a reset, and the definitions
  on which a run calls \<^verbatim>\<open>next_sequence\<close>, in order: one for each value that
  \<open>run_calls\<close> returns.\<close>

fun target :: "seq_call \<Rightarrow> fref" where
  "target (Next f) = f"
| "target (Reset f val force) = f"

fun is_reset :: "seq_call \<Rightarrow> bool" where
  "is_reset (Next f) = False"
| "is_reset (Reset f val force) = True"

text \<open>A call that the ownership rule of \<^verbatim>\<open>reset_sequence\<close> lets through: any
  \<^verbatim>\<open>next_sequence\<close>, and a reset on the owner of the counter or with \<open>force\<close>.\<close>

fun permitted :: "('d, 'p) store \<Rightarrow> seq_call \<Rightarrow> bool" where
  "permitted st (Next f) = True"
| "permitted st (Reset f val force) = (counter_reference (metas st ! f) = f \<or> force)"

fun called :: "seq_call list \<Rightarrow> fref list" where
  "called [] = []"
| "called (Next f # cs) = f # called cs"
| "called (Reset f val force # cs) = called cs"

text \<open>Of the values \<open>vs\<close> that the run \<open>cs\<close> returned, those returned to definitions
  whose counter reference is \<open>r\<close>: the values drawn from the counter that \<open>r\<close> owns.\<close>

definition values_for :: "('d, 'p) store \<Rightarrow> fref \<Rightarrow> seq_call list \<Rightarrow> int list \<Rightarrow> int list" where
  "values_for st r cs vs =
     map snd (filter (\<lambda>(f, v). counter_reference (metas st ! f) = r) (zip (called cs) vs))"

text \<open>The stores that a program can build: it starts with no definition and no counter,
  registers definitions, and calls the sequence interface on registered definitions with
  room for two call frames or more.\<close>

inductive reachable ::
  "('d, 'p) collaborators \<Rightarrow> (fref \<Rightarrow> int) \<Rightarrow> ('d, 'p) store \<Rightarrow> bool"
  for env :: "('d, 'p) collaborators" and setup_seq :: "fref \<Rightarrow> int" where
  nothing: "reachable env setup_seq \<lparr>metas = [], counters = []\<rparr>"
| registered:
    "reachable env setup_seq st \<Longrightarrow> contribute_to_class env cd st = Inr st' \<Longrightarrow>
     reachable env setup_seq st'"
| run:
    "reachable env setup_seq st \<Longrightarrow> 2 \<le> depth \<Longrightarrow>
     \<forall>c \<in> set cs. target c < length (metas st) \<Longrightarrow>
     run_calls depth setup_seq cs st = Inr (vs, st') \<Longrightarrow>
     reachable env setup_seq st'"

text \<open>The reverse-dependency graph of a parameter mapping: an edge from each
  parameter to each name \<^verbatim>\<open>get_revdeps\<close> returns for it.\<close>

definition revdep_edges :: "('d, 'p) collaborators \<Rightarrow> (string \<times> 'p) list \<Rightarrow> (string \<times> string) set" where
  "revdep_edges env params =
     set (concat (map (\<lambda>(name, p). if is_Parameter env p
                                     then map (\<lambda>dep. (name, dep)) (get_revdeps env p params)
                                     else []) params))"

text \<open>A closure table is sound when it only relates a name to names reachable from it
  in the graph \<open>E\<close>.\<close>

definition closure_sound :: "(string \<times> string) set \<Rightarrow> (string \<times> string set) list \<Rightarrow> bool" where
  "closure_sound E deep = (\<forall>n d. d \<in> dd_get deep n \<longrightarrow> (n, d) \<in> E\<^sup>+)"


text \<open>
  The keyword mapping after the rename step as the specification words it, on maps: a
  constructor name carries the value of its declared name, a declared name that was
  renamed is gone, every other name keeps its value.
\<close>

definition renamed :: "(string \<times> string) list \<Rightarrow> (string \<rightharpoonup> 'a) \<Rightarrow> (string \<rightharpoonup> 'a)" where
  "renamed rn m k =
     (case map_of (map (\<lambda>(old_name, new_name). (new_name, old_name)) rn) k of
        Some old_name \<Rightarrow> m old_name
      | None \<Rightarrow> if k \<in> set (map fst rn) then None else m k)"

section \<open>Example definitions\<close>

text \<open>
  Collaborators for the examples: a parameter is the list of the names it overrides, and
  its reverse dependencies are the parameters it overrides, in the order of the parameter
  mapping; nothing is a method or a declaration with a builder phase; the introspector
  knows two default fields and builds nothing.
\<close>

definition example_env :: "(string list, string list) collaborators" where
  "example_env =
     \<lparr>is_method = (\<lambda>v. False), has_builder_phase = (\<lambda>v. False),
      get_default_field_names = (\<lambda>ic m. Inr [''id'', ''title'']),
      build_declarations = (\<lambda>ic field_names skip. Inr []),
      sort_ordered_objects = (\<lambda>items. items),
      sort_ordered_parameters = (\<lambda>items. items),
      wrap = (\<lambda>v. v), is_Parameter = (\<lambda>p. True),
      get_revdeps = (\<lambda>p params. filter (\<lambda>n. n \<in> set p) (map fst params)),
      as_declarations = (\<lambda>name p decls. []),
      parse_declarations = (\<lambda>decls. Inr (decls, []))\<rparr>"

definition no_meta :: meta_class where
  "no_meta =
     \<lparr>meta_model = None, meta_abstract = None, meta_strategy = None, meta_inline_args = None,
      meta_exclude = None, meta_rename = None, meta_introspector_class = None,
      meta_default_auto_fields = None, meta_include_auto_fields = None,
      meta_exclude_auto_fields = None, meta_other = []\<rparr>"

definition plain_class :: "string \<Rightarrow> fref option \<Rightarrow> meta_class \<Rightarrow> string list class_def" where
  "plain_class name base mt =
     \<lparr>cd_name = name, cd_mro = [base], cd_attrs = [], cd_meta = Some mt, cd_params = None,
      cd_base_meta = base, cd_base_factory = base\<rparr>"

text \<open>\<^verbatim>\<open>class Animal\<close> and \<^verbatim>\<open>class Dog(Animal)\<close>; a second class named
  \<^verbatim>\<open>Animal\<close>, defined apart from the first; and a class registered as a virtual
  subclass of the abstract base class \<^verbatim>\<open>Pet\<close>.\<close>

text \<open>A definition with no base, no \<^verbatim>\<open>class Meta\<close> options and the given
  \<^verbatim>\<open>class Params\<close>.\<close>

definition params_class :: "string \<Rightarrow> (string \<times> string list) list \<Rightarrow> string list class_def" where
  "params_class name items = (plain_class name None no_meta)\<lparr>cd_params := Some items\<rparr>"

definition Animal :: pyclass where "Animal = PyClass 1 ''Animal'' [Object] []"
definition Dog :: pyclass where "Dog = PyClass 2 ''Dog'' [Animal] []"
definition Animal2 :: pyclass where "Animal2 = PyClass 3 ''Animal'' [Object] []"
definition Pet :: pyclass where "Pet = PyClass 4 ''Pet'' [Object] [5]"
definition Robot :: pyclass where "Robot = PyClass 5 ''Robot'' [Object] []"

definition empty_store :: "(string list, string list) store" where
  "empty_store = \<lparr>metas = [], counters = []\<rparr>"

definition animal_options :: "(string list, string list) options" where
  "animal_options =
     (FactoryOptions_init ''AnimalFactory'' 0)\<lparr>model := Some Animal, strategy := ''create''\<rparr>"

definition dog_options :: "(string list, string list) options" where
  "dog_options =
     (FactoryOptions_init ''DogFactory'' 1)
       \<lparr>base_factory := Some 0, counter_reference := 0, model := Some Dog,
        strategy := ''create''\<rparr>"

text \<open>\<^verbatim>\<open>AnimalFactory\<close> for \<^verbatim>\<open>Animal\<close> and \<^verbatim>\<open>DogFactory(AnimalFactory)\<close> for
  \<^verbatim>\<open>Dog(Animal)\<close>, no counter created yet.\<close>

definition animal_store :: "(string list, string list) store" where
  "animal_store = \<lparr>metas = [animal_options], counters = []\<rparr>"

definition family_store :: "(string list, string list) store" where
  "family_store = \<lparr>metas = [animal_options, dog_options], counters = []\<rparr>"

text \<open>The same two definitions and \<^verbatim>\<open>RobotFactory\<close> for \<^verbatim>\<open>Robot\<close>, which has no
  base definition and is its own counter reference.\<close>

definition robot_options :: "(string list, string list) options" where
  "robot_options =
     (FactoryOptions_init ''RobotFactory'' 2)\<lparr>model := Some Robot, strategy := ''create''\<rparr>"

definition zoo_store :: "(string list, string list) store" where
  "zoo_store = \<lparr>metas = [animal_options, dog_options, robot_options], counters = []\<rparr>"

text \<open>Parameter mappings: two traits that override each other, the diamond of the
  specification, two traits that each override themselves, and three traits that
  override one another in a ring.\<close>

definition cyclic_params :: "(string \<times> string list) list" where
  "cyclic_params = [(''premium'', [''active'']), (''active'', [''premium''])]"

definition diamond_params :: "(string \<times> string list) list" where
  "diamond_params = [(''d'', []), (''a'', [''d'']), (''b'', [''d'']), (''c'', [''a'', ''b''])]"

definition loops_params :: "(string \<times> string list) list" where
  "loops_params = [(''z'', [''z'']), (''a'', [''a''])]"

definition ring_params :: "(string \<times> string list) list" where
  "ring_params = [(''a'', [''b'']), (''b'', [''c'']), (''c'', [''a''])]"

text \<open>A step builder that always delivers a stub, and two more options objects: a
  definition with no target type, and one with a strategy name that is none of the
  three.\<close>

definition stub_builder ::
  "fref \<Rightarrow> (string \<times> int) list \<Rightarrow> string \<Rightarrow> (string list, string list) store \<Rightarrow>
   error + ((unit, int) product \<times> (string list, string list) store)" where
  "stub_builder cls params strat st = Inr (StubObject params, st)"

definition abstract_options :: "(string list, string list) options" where
  "abstract_options =
     (FactoryOptions_init ''ShapeFactory'' 0)\<lparr>abstract := True, strategy := ''stub''\<rparr>"

definition parcel_options :: "(string list, string list) options" where
  "parcel_options =
     (FactoryOptions_init ''ParcelFactory'' 0)\<lparr>model := Some Animal, strategy := ''express''\<rparr>"




text \<open>Options that rename \<^verbatim>\<open>title\<close> to \<^verbatim>\<open>name\<close>; options that also exclude
  \<^verbatim>\<open>secret\<close>, have the parameter \<^verbatim>\<open>premium\<close> and pass \<^verbatim>\<open>name\<close> positionally;
  and a resolved attribute mapping.\<close>

definition renaming_options :: "(string list, string list) options" where
  "renaming_options =
     (FactoryOptions_init ''ArticleFactory'' 0)
       \<lparr>model := Some Animal, rename := [(''title'', ''name'')]\<rparr>"

definition article_options :: "(string list, string list) options" where
  "article_options =
     (FactoryOptions_init ''ArticleFactory'' 0)
       \<lparr>parameters := [(''premium'', [])], model := Some Animal, inline_args := [''name''],
        exclude := [''secret''], rename := [(''title'', ''name'')]\<rparr>"

definition article_attributes :: "(string \<times> int attr_value) list" where
  "article_attributes =
     [(''title'', Val 1), (''secret'', Val 2), (''premium'', Val 3), (''note'', SKIP),
      (''size'', Val 4)]"

section \<open>Properties\<close>

lemma lookup_Some_iff: "lookup st f = Some m \<longleftrightarrow> f < length (metas st) \<and> m = metas st ! f"
  by (auto simp: lookup_def)

subsection \<open>The store invariant and the sequence interface\<close>

lemma set_counter_length [simp]: "length (metas (set_counter f c st)) = length (metas st)"
  and set_counter_counters [simp]: "counters (set_counter f c st) = counters st"
  by (simp_all add: set_counter_def)

lemma set_counter_nth:
  "g < length (metas st) \<Longrightarrow>
   metas (set_counter f c st) ! g = (if g = f then (metas st ! f)\<lparr>counter := c\<rparr> else metas st ! g)"
  by (simp add: set_counter_def nth_list_update)

lemma set_counter_refs [simp]:
  "map counter_reference (metas (set_counter f c st)) = map counter_reference (metas st)"
  by (cases "f < length (metas st)") (simp_all add: set_counter_def map_update list_update_same_conv list_update_beyond)

lemma counters_wf_iff:
  "counters_wf st \<longleftrightarrow>
     (\<forall>f < length (metas st).
        counter_reference (metas st ! f) < length (metas st)
      \<and> counter_reference (metas st ! counter_reference (metas st ! f)) = counter_reference (metas st ! f)
      \<and> (\<forall>c. counter (metas st ! f) = Some c \<longrightarrow>
             c < length (counters st)
           \<and> counter (metas st ! counter_reference (metas st ! f)) = Some c))"
  by (auto simp: counters_wf_def list_all_length split: option.splits)

lemma initialize_root:
  assumes "f < length (metas st)" "counter_reference (metas st ! f) = f"
  shows "initialize_counter (Suc d) setup_seq f st =
           Inr (case counter (metas st ! f) of
                  Some c \<Rightarrow> st
                | None \<Rightarrow> set_counter f (Some (length (counters st))) (st\<lparr>counters := counters st @ [setup_seq f]\<rparr>))"
  using assms by (simp add: lookup_def new_Counter_def split: option.splits)

lemma wf_alloc_root:
  assumes wf: "counters_wf st" and f: "f < length (metas st)"
    and root: "counter_reference (metas st ! f) = f" and none: "counter (metas st ! f) = None"
  shows "counters_wf (set_counter f (Some (length (counters st))) (st\<lparr>counters := counters st @ [v]\<rparr>))"
  using assms
  apply (simp add: counters_wf_iff set_counter_nth)
  apply (auto simp: set_counter_def nth_list_update less_Suc_eq)
  done


lemma refs_nth:
  "map counter_reference (metas st') = map counter_reference (metas st) \<Longrightarrow> g < length (metas st) \<Longrightarrow>
   counter_reference (metas st' ! g) = counter_reference (metas st ! g)"
  by (metis length_map nth_map)

lemma refs_length:
  "map counter_reference (metas st') = map counter_reference (metas st) \<Longrightarrow> length (metas st') = length (metas st)"
  by (metis length_map)

lemma initialize_root_wf:
  assumes wf: "counters_wf st" and f: "f < length (metas st)"
    and root: "counter_reference (metas st ! f) = f"
  shows "\<exists>st'. initialize_counter (Suc d) setup_seq f st = Inr st' \<and> initialised setup_seq f st st'"
proof (cases "counter (metas st ! f)")
  case None
  let ?st' = "set_counter f (Some (length (counters st))) (st\<lparr>counters := counters st @ [setup_seq f]\<rparr>)"
  have "initialize_counter (Suc d) setup_seq f st = Inr ?st'"
    using initialize_root[OF f root] None by simp
  moreover have "counters_wf ?st'" by (rule wf_alloc_root[OF wf f root None])
  moreover have "initialised setup_seq f st ?st'"
    using \<open>counters_wf ?st'\<close> f root None
    by (simp add: initialised_def set_counter_nth next_value_def lookup_def)
  ultimately show ?thesis by blast
next
  case (Some c)
  have "initialize_counter (Suc d) setup_seq f st = Inr st"
    using initialize_root[OF f root] Some by simp
  moreover have "initialised setup_seq f st st"
    using wf f root Some by (auto simp: initialised_def next_value_def lookup_def counters_wf_iff)
  ultimately show ?thesis by blast
qed

lemma wf_share:
  assumes wf: "counters_wf st" and f: "f < length (metas st)"
    and c: "counter (metas st ! counter_reference (metas st ! f)) = Some c"
    and nroot: "counter_reference (metas st ! f) \<noteq> f"
  shows "counters_wf (set_counter f (Some c) st)"
proof -
  let ?r = "counter_reference (metas st ! f)"
  have r: "?r < length (metas st)" "counter_reference (metas st ! ?r) = ?r"
    using wf f by (auto simp: counters_wf_iff)
  have cl: "c < length (counters st)" using wf r c by (auto simp: counters_wf_iff)
  show ?thesis
    unfolding counters_wf_iff
  proof (intro allI impI)
    fix g assume g: "g < length (metas (set_counter f (Some c) st))"
    then have g': "g < length (metas st)" by simp
    have gr: "counter_reference (metas st ! g) < length (metas st)"
       "counter_reference (metas st ! counter_reference (metas st ! g)) = counter_reference (metas st ! g)"
      using wf g' by (auto simp: counters_wf_iff)
    have gc: "\<And>c'. counter (metas st ! g) = Some c' \<Longrightarrow> c' < length (counters st) \<and> counter (metas st ! counter_reference (metas st ! g)) = Some c'"
      using wf g' by (auto simp: counters_wf_iff)
    have rootnf: "counter_reference (metas st ! g) \<noteq> f"
      using gr(2) nroot by metis
    show "counter_reference (metas (set_counter f (Some c) st) ! g) < length (metas (set_counter f (Some c) st))
      \<and> counter_reference (metas (set_counter f (Some c) st) ! counter_reference (metas (set_counter f (Some c) st) ! g))
          = counter_reference (metas (set_counter f (Some c) st) ! g)
      \<and> (\<forall>ca. counter (metas (set_counter f (Some c) st) ! g) = Some ca \<longrightarrow>
             ca < length (counters (set_counter f (Some c) st))
           \<and> counter (metas (set_counter f (Some c) st) ! counter_reference (metas (set_counter f (Some c) st) ! g)) = Some ca)"
      using g' gr gc rootnf r c cl f nroot
      by (auto simp: set_counter_nth)
  qed
qed

lemma initialize_wf:
  assumes wf: "counters_wf st" and f: "f < length (metas st)"
  shows "\<exists>st'. initialize_counter (Suc (Suc d)) setup_seq f st = Inr st' \<and> initialised setup_seq f st st'"
proof -
  let ?r = "counter_reference (metas st ! f)"
  have r: "?r < length (metas st)" "counter_reference (metas st ! ?r) = ?r"
    using wf f by (auto simp: counters_wf_iff)
  show ?thesis
  proof (cases "?r = f")
    case True
    then show ?thesis using initialize_root_wf[OF wf f, of "Suc d" setup_seq] by simp
  next
    case nroot: False
    show ?thesis
    proof (cases "counter (metas st ! f)")
      case (Some c)
      have "initialize_counter (Suc (Suc d)) setup_seq f st = Inr st"
        using f Some by (simp add: lookup_def)
      moreover have "initialised setup_seq f st st"
        using wf f r Some by (auto simp: initialised_def next_value_def lookup_def counters_wf_iff)
      ultimately show ?thesis by blast
    next
      case None
      obtain st1 where st1: "initialize_counter (Suc d) setup_seq ?r st = Inr st1"
          and i1: "initialised setup_seq ?r st st1"
        using initialize_root_wf[OF wf r] by blast
      from i1 obtain c where wf1: "counters_wf st1"
        and refs1: "map counter_reference (metas st1) = map counter_reference (metas st)"
        and c: "counter (metas st1 ! ?r) = Some c" "c < length (counters st1)"
               "counters st1 ! c = next_value setup_seq st ?r"
        using r by (auto simp: initialised_def)
      have len1: "length (metas st1) = length (metas st)" using refs1 by (rule refs_length)
      have ref1: "counter_reference (metas st1 ! f) = ?r" using refs_nth[OF refs1 f] .
      let ?st' = "set_counter f (Some c) st1"
      have "initialize_counter (Suc (Suc d)) setup_seq f st = Inr ?st'"
        using f None nroot st1 r c len1 by (simp add: lookup_def del: initialize_counter.simps(2)
              add: initialize_counter.simps(2)[of "Suc d"])
      moreover have wf': "counters_wf ?st'"
        using wf_share[OF wf1, of f c] f len1 ref1 c nroot by simp
      moreover have "initialised setup_seq f st ?st'"
        using wf' refs1 c f r nroot len1
        by (simp add: initialised_def set_counter_nth)
      ultimately show ?thesis by blast
    qed
  qed
qed


lemma wf_counters_update:
  "counters_wf st \<Longrightarrow> counters_wf (st\<lparr>counters := (counters st)[c := v]\<rparr>)"
  by (simp add: counters_wf_iff)

lemma next_step:
  assumes wf: "counters_wf st" and f: "f < length (metas st)"
  shows "\<exists>st'. next_sequence (Suc (Suc d)) setup_seq f st
                 = Inr (next_value setup_seq st (counter_reference (metas st ! f)), st')
             \<and> counters_wf st'
             \<and> map counter_reference (metas st') = map counter_reference (metas st)
             \<and> next_value setup_seq st' (counter_reference (metas st ! f))
                 = next_value setup_seq st (counter_reference (metas st ! f)) + 1"
proof -
  let ?r = "counter_reference (metas st ! f)"
  have r: "?r < length (metas st)" using wf f by (auto simp: counters_wf_iff)
  obtain st1 where st1: "initialize_counter (Suc (Suc d)) setup_seq f st = Inr st1"
    and i1: "initialised setup_seq f st st1"
    using initialize_wf[OF wf f] by blast
  from i1 obtain c where wf1: "counters_wf st1"
    and refs1: "map counter_reference (metas st1) = map counter_reference (metas st)"
    and c: "counter (metas st1 ! f) = Some c" "counter (metas st1 ! ?r) = Some c"
           "c < length (counters st1)" "counters st1 ! c = next_value setup_seq st ?r"
    by (auto simp: initialised_def)
  have len1: "length (metas st1) = length (metas st)" using refs1 by (rule refs_length)
  let ?st' = "st1\<lparr>counters := (counters st1)[c := counters st1 ! c + 1]\<rparr>"
  have "next_sequence (Suc (Suc d)) setup_seq f st = Inr (next_value setup_seq st ?r, ?st')"
    unfolding next_sequence_def st1 using f len1 c
    by (simp add: lookup_def Counter_next_def)
  moreover have "counters_wf ?st'" using wf1 by (rule wf_counters_update)
  moreover have "map counter_reference (metas ?st') = map counter_reference (metas st)"
    using refs1 by simp
  moreover have "next_value setup_seq ?st' ?r = next_value setup_seq st ?r + 1"
    using r len1 c by (simp add: next_value_def lookup_def)
  ultimately show ?thesis by blast
qed

lemma reset_refused:
  assumes wf: "counters_wf st" and f: "f < length (metas st)"
    and nroot: "counter_reference (metas st ! f) \<noteq> f" and nf: "\<not> force"
  shows "reset_sequence (Suc (Suc d)) setup_seq f val force st
           = Inl (ResetDescendantError f (counter_reference (metas st ! f)))"
proof -
  obtain st1 where st1: "initialize_counter (Suc (Suc d)) setup_seq f st = Inr st1"
    and i1: "initialised setup_seq f st st1"
    using initialize_wf[OF wf f] by blast
  have refs1: "map counter_reference (metas st1) = map counter_reference (metas st)"
    using i1 by (simp add: initialised_def)
  have len1: "length (metas st1) = length (metas st)" using refs1 by (rule refs_length)
  have ref1: "counter_reference (metas st1 ! f) = counter_reference (metas st ! f)"
    using refs_nth[OF refs1 f] .
  show ?thesis
    unfolding reset_sequence_def st1 using f len1 ref1 nroot nf
    by (simp add: lookup_def)
qed

lemma reset_step:
  assumes wf: "counters_wf st" and f: "f < length (metas st)"
    and ok: "counter_reference (metas st ! f) = f \<or> force"
  shows "\<exists>st'. reset_sequence (Suc (Suc d)) setup_seq f val force st = Inr st'
             \<and> counters_wf st'
             \<and> map counter_reference (metas st') = map counter_reference (metas st)
             \<and> next_value setup_seq st' (counter_reference (metas st ! f))
                 = (case val of None \<Rightarrow> setup_seq (counter_reference (metas st ! f)) | Some v \<Rightarrow> v)"
proof -
  let ?r = "counter_reference (metas st ! f)"
  let ?v = "case val of None \<Rightarrow> setup_seq ?r | Some v \<Rightarrow> v"
  have r: "?r < length (metas st)" using wf f by (auto simp: counters_wf_iff)
  obtain st1 where st1: "initialize_counter (Suc (Suc d)) setup_seq f st = Inr st1"
    and i1: "initialised setup_seq f st st1"
    using initialize_wf[OF wf f] by blast
  from i1 obtain c where wf1: "counters_wf st1"
    and refs1: "map counter_reference (metas st1) = map counter_reference (metas st)"
    and c: "counter (metas st1 ! f) = Some c" "counter (metas st1 ! ?r) = Some c"
           "c < length (counters st1)"
    by (auto simp: initialised_def)
  have len1: "length (metas st1) = length (metas st)" using refs1 by (rule refs_length)
  have ref1: "counter_reference (metas st1 ! f) = ?r" using refs_nth[OF refs1 f] .
  let ?st' = "st1\<lparr>counters := (counters st1)[c := ?v]\<rparr>"
  have "reset_sequence (Suc (Suc d)) setup_seq f val force st = Inr ?st'"
    unfolding reset_sequence_def st1 using f len1 ref1 c ok
    by (auto simp: lookup_def Counter_reset_def cong: option.case_cong)
  moreover have "counters_wf ?st'" using wf1 by (rule wf_counters_update)
  moreover have "map counter_reference (metas ?st') = map counter_reference (metas st)"
    using refs1 by simp
  moreover have "next_value setup_seq ?st' ?r = ?v"
    using r len1 c by (simp add: next_value_def lookup_def)
  ultimately show ?thesis by blast
qed

text \<open>A run of \<^verbatim>\<open>next_sequence\<close> calls on definitions that share the counter
  reference \<open>r\<close> delivers the next value of \<open>r\<close> and its successors.\<close>

lemma run_next_family:
  assumes "counters_wf st"
    and "\<forall>f \<in> set fs. f < length (metas st) \<and> counter_reference (metas st ! f) = r"
  shows "\<exists>st'. run_calls (Suc (Suc d)) setup_seq (map Next fs) st
                 = Inr (map (\<lambda>i. next_value setup_seq st r + int i) [0..<length fs], st')
             \<and> counters_wf st'
             \<and> map counter_reference (metas st') = map counter_reference (metas st)
             \<and> next_value setup_seq st' r = next_value setup_seq st r + int (length fs)"
  using assms
proof (induction fs arbitrary: st)
  case Nil
  then show ?case by simp
next
  case (Cons f fs)
  have f: "f < length (metas st)" and fr: "counter_reference (metas st ! f) = r"
    using Cons.prems(2) by auto
  obtain st1 where n1: "next_sequence (Suc (Suc d)) setup_seq f st = Inr (next_value setup_seq st r, st1)"
    and wf1: "counters_wf st1"
    and refs1: "map counter_reference (metas st1) = map counter_reference (metas st)"
    and cur1: "next_value setup_seq st1 r = next_value setup_seq st r + 1"
    using next_step[OF Cons.prems(1) f, of d setup_seq] fr by auto
  have fam1: "\<forall>g \<in> set fs. g < length (metas st1) \<and> counter_reference (metas st1 ! g) = r"
    using Cons.prems(2) refs_length[OF refs1] refs_nth[OF refs1] by auto
  obtain st' where r': "run_calls (Suc (Suc d)) setup_seq (map Next fs) st1
                 = Inr (map (\<lambda>i. next_value setup_seq st1 r + int i) [0..<length fs], st')"
    and wf': "counters_wf st'"
    and refs': "map counter_reference (metas st') = map counter_reference (metas st1)"
    and cur': "next_value setup_seq st' r = next_value setup_seq st1 r + int (length fs)"
    using Cons.IH[OF wf1 fam1] by blast
  have vals: "next_value setup_seq st r # map (\<lambda>i. next_value setup_seq st1 r + int i) [0..<length fs]
              = map (\<lambda>i. next_value setup_seq st r + int i) [0..<length (f # fs)]"
    using cur1 by (simp add: upt_rec[of 0 "Suc (length fs)"] map_Suc_upt[symmetric] del: upt_Suc)
  have "run_calls (Suc (Suc d)) setup_seq (map Next (f # fs)) st
          = Inr (map (\<lambda>i. next_value setup_seq st r + int i) [0..<length (f # fs)], st')"
    using n1 r' vals by (simp del: upt_Suc)
  moreover have "next_value setup_seq st' r = next_value setup_seq st r + int (length (f # fs))"
    using cur' cur1 by simp
  ultimately show ?case using wf' refs' refs1 by auto
qed


lemma contribute_to_class_shape:
  assumes "contribute_to_class env cd st = Inr st'"
  shows "\<exists>m r. st' = st\<lparr>metas := metas st @ [m]\<rparr> \<and> counter m = None \<and> counter_reference m = r
      \<and> get_counter_reference st (length (metas st)) (model m) (cd_base_factory cd) = Inr r
      \<and> (model m = None \<longrightarrow> abstract m) \<and> factory_name m = cd_name cd"
  using assms
  by (auto simp: contribute_to_class_def Let_def finish_registration_def collect_parameters_def
        collect_declarations_def force_abstract_def fill_from_meta_def FactoryOptions_init_def
        split: sum.splits option.splits if_splits prod.splits)

lemma get_counter_reference_cases:
  assumes "get_counter_reference st self mo b = Inr r"
  shows "r = self \<or> (\<exists>b' bm. b = Some b' \<and> b' < length (metas st) \<and> r = counter_reference (metas st ! b'))"
  using assms
  by (auto simp: get_counter_reference_def lookup_def split: option.splits if_splits)

lemma contribute_to_class_wf:
  assumes reg: "contribute_to_class env cd st = Inr st'" and wf: "counters_wf st"
  shows "counters_wf st'"
proof -
  obtain m r where st': "st' = st\<lparr>metas := metas st @ [m]\<rparr>" and c: "counter m = None"
    and r: "counter_reference m = r"
    and g: "get_counter_reference st (length (metas st)) (model m) (cd_base_factory cd) = Inr r"
    using contribute_to_class_shape[OF reg] by blast
  from get_counter_reference_cases[OF g]
  have rr: "r = length (metas st) \<or> (r < length (metas st) \<and> counter_reference (metas st ! r) = r)"
    using wf by (auto simp: counters_wf_iff)
  show ?thesis
    unfolding counters_wf_iff
  proof (intro allI impI)
    fix f assume "f < length (metas st')"
    then have "f < length (metas st) \<or> f = length (metas st)" using st' by auto
    then show "counter_reference (metas st' ! f) < length (metas st')
      \<and> counter_reference (metas st' ! counter_reference (metas st' ! f)) = counter_reference (metas st' ! f)
      \<and> (\<forall>c. counter (metas st' ! f) = Some c \<longrightarrow>
             c < length (counters st') \<and> counter (metas st' ! counter_reference (metas st' ! f)) = Some c)"
    proof
      assume f: "f < length (metas st)"
      have "counter_reference (metas st ! f) < length (metas st)"
        "counter_reference (metas st ! counter_reference (metas st ! f)) = counter_reference (metas st ! f)"
        "\<And>c. counter (metas st ! f) = Some c \<Longrightarrow> c < length (counters st) \<and> counter (metas st ! counter_reference (metas st ! f)) = Some c"
        using wf f by (auto simp: counters_wf_iff)
      then show ?thesis using f st' by (simp add: nth_append)
    next
      assume f: "f = length (metas st)"
      show ?thesis using rr f st' c r by (auto simp: nth_append)
    qed
  qed
qed


lemma two_le_depth: "2 \<le> depth \<Longrightarrow> \<exists>d. depth = Suc (Suc d)"
  by (metis Suc_le_D numeral_2_eq_2 Suc_le_mono)

lemma example_stores_wf:
  "counters_wf family_store" "counters_wf animal_store" "counters_wf empty_store"
  by (simp_all add: counters_wf_def family_store_def animal_store_def empty_store_def
        animal_options_def dog_options_def FactoryOptions_init_def)

lemmas example_store_defs =
  family_store_def animal_store_def animal_options_def dog_options_def FactoryOptions_init_def

lemmas sequence_defs =
  next_sequence_def reset_sequence_def lookup_def new_Counter_def set_counter_def
  Counter_next_def Counter_reset_def

lemma initialize_counter_sets:
  "initialize_counter depth setup_seq f st = Inr st' \<Longrightarrow>
     f < length (metas st') \<and> length (metas st') = length (metas st) \<and> counter (metas st' ! f) \<noteq> None"
proof (induction depth setup_seq f st arbitrary: st' rule: initialize_counter.induct)
  case (1 setup_seq self st)
  then show ?case by simp
next
  case (2 depth setup_seq self st)
  show ?case
  proof (cases "lookup st self")
    case None
    then show ?thesis using "2.prems" by simp
  next
    case (Some m)
    then have self: "self < length (metas st)" and m: "m = metas st ! self"
      by (auto simp: lookup_Some_iff)
    show ?thesis
    proof (cases "counter m")
      case (Some c)
      then show ?thesis using "2.prems" \<open>lookup st self = Some m\<close> self m by auto
    next
      case None
      show ?thesis
      proof (cases "counter_reference m = self")
        case True
        then show ?thesis
          using "2.prems" \<open>lookup st self = Some m\<close> None self
          by (auto simp: new_Counter_def set_counter_nth)
      next
        case False
        from "2.prems" \<open>lookup st self = Some m\<close> None False
        obtain st1 r where st1: "initialize_counter depth setup_seq (counter_reference m) st = Inr st1"
          and r: "lookup st1 (counter_reference m) = Some r"
          and st': "st' = set_counter self (counter r) st1"
          by (auto split: sum.splits option.splits)
        have ih: "counter_reference m < length (metas st1) \<and> length (metas st1) = length (metas st)
                 \<and> counter (metas st1 ! counter_reference m) \<noteq> None"
          using "2.IH"[OF \<open>lookup st self = Some m\<close> None False st1] .
        have "counter r \<noteq> None" using ih r by (auto simp: lookup_Some_iff)
        then show ?thesis using st' ih self by (auto simp: set_counter_nth)
      qed
    qed
  qed
qed

lemma initialize_counter_again:
  assumes "initialize_counter depth setup_seq f st = Inr st'"
  shows "initialize_counter (Suc d') setup_seq' f st' = Inr st'"
  using initialize_counter_sets[OF assms] by (auto simp: lookup_def)

subsection \<open>Counters of different owners\<close>

lemma counters_separate_iff:
  "counters_separate st \<longleftrightarrow>
     (\<forall>f < length (metas st). \<forall>g < length (metas st). \<forall>c.
        counter (metas st ! f) = Some c \<and> counter (metas st ! g) = Some c \<longrightarrow>
        counter_reference (metas st ! f) = counter_reference (metas st ! g))"
  by (auto simp: counters_separate_def list_all_length split: option.splits)

lemma separateD:
  "counters_separate st \<Longrightarrow> g < length (metas st) \<Longrightarrow> h < length (metas st) \<Longrightarrow>
   counter (metas st ! g) = Some c \<Longrightarrow> counter (metas st ! h) = Some c \<Longrightarrow>
   counter_reference (metas st ! g) = counter_reference (metas st ! h)"
  unfolding counters_separate_iff by blast

lemma wf_counter_live:
  "counters_wf st \<Longrightarrow> g < length (metas st) \<Longrightarrow> counter (metas st ! g) = Some c \<Longrightarrow>
   c < length (counters st)"
  by (simp add: counters_wf_iff)

lemma wf_reference:
  "counters_wf st \<Longrightarrow> g < length (metas st) \<Longrightarrow>
   counter_reference (metas st ! g) < length (metas st)
   \<and> counter_reference (metas st ! counter_reference (metas st ! g)) = counter_reference (metas st ! g)"
  by (simp add: counters_wf_iff)

lemma separate_alloc_root:
  assumes wf: "counters_wf st" and sep: "counters_separate st" and f: "f < length (metas st)"
    and none: "counter (metas st ! f) = None"
  shows "counters_separate (set_counter f (Some (length (counters st))) (st\<lparr>counters := counters st @ [v]\<rparr>))"
proof -
  let ?st0 = "st\<lparr>counters := counters st @ [v]\<rparr>"
  let ?st' = "set_counter f (Some (length (counters st))) ?st0"
  have old: "counter (metas st ! g) \<noteq> Some (length (counters st))" if "g < length (metas st)" for g
    using wf_counter_live[OF wf that, of "length (counters st)"] by auto
  show ?thesis
    unfolding counters_separate_iff
  proof (intro allI impI)
    fix g h c
    assume g: "g < length (metas ?st')" and h: "h < length (metas ?st')"
      and c: "counter (metas ?st' ! g) = Some c \<and> counter (metas ?st' ! h) = Some c"
    have g': "g < length (metas st)" and h': "h < length (metas st)" using g h by simp_all
    have ng: "metas ?st' ! g = (if g = f then (metas st ! f)\<lparr>counter := Some (length (counters st))\<rparr> else metas st ! g)"
      using g' by (simp add: set_counter_nth)
    have nh: "metas ?st' ! h = (if h = f then (metas st ! f)\<lparr>counter := Some (length (counters st))\<rparr> else metas st ! h)"
      using h' by (simp add: set_counter_nth)
    show "counter_reference (metas ?st' ! g) = counter_reference (metas ?st' ! h)"
    proof (cases "g = f")
      case gf: True
      show ?thesis
      proof (cases "h = f")
        case True
        then show ?thesis using gf by simp
      next
        case False
        then show ?thesis using c gf ng nh old[OF h'] by auto
      qed
    next
      case gf: False
      show ?thesis
      proof (cases "h = f")
        case True
        then show ?thesis using c gf ng nh old[OF g'] by auto
      next
        case False
        then show ?thesis using c gf ng nh separateD[OF sep g' h', of c] by simp
      qed
    qed
  qed
qed

lemma separate_share:
  assumes wf: "counters_wf st" and sep: "counters_separate st" and f: "f < length (metas st)"
    and c: "counter (metas st ! counter_reference (metas st ! f)) = Some c"
  shows "counters_separate (set_counter f (Some c) st)"
proof -
  let ?r = "counter_reference (metas st ! f)"
  let ?st' = "set_counter f (Some c) st"
  have r: "?r < length (metas st)" "counter_reference (metas st ! ?r) = ?r"
    using wf_reference[OF wf f] by simp_all
  have same: "counter_reference (metas st ! g) = ?r"
    if "g < length (metas st)" "counter (metas st ! g) = Some c" for g
    using separateD[OF sep that(1) r(1) that(2) c] r(2) by simp
  show ?thesis
    unfolding counters_separate_iff
  proof (intro allI impI)
    fix g h c'
    assume g: "g < length (metas ?st')" and h: "h < length (metas ?st')"
      and cc: "counter (metas ?st' ! g) = Some c' \<and> counter (metas ?st' ! h) = Some c'"
    have g': "g < length (metas st)" and h': "h < length (metas st)" using g h by simp_all
    have ng: "metas ?st' ! g = (if g = f then (metas st ! f)\<lparr>counter := Some c\<rparr> else metas st ! g)"
      using g' by (simp add: set_counter_nth)
    have nh: "metas ?st' ! h = (if h = f then (metas st ! f)\<lparr>counter := Some c\<rparr> else metas st ! h)"
      using h' by (simp add: set_counter_nth)
    show "counter_reference (metas ?st' ! g) = counter_reference (metas ?st' ! h)"
    proof (cases "g = f")
      case gf: True
      show ?thesis
      proof (cases "h = f")
        case True
        then show ?thesis using gf by simp
      next
        case False
        then show ?thesis using cc gf ng nh same[OF h'] by auto
      qed
    next
      case gf: False
      show ?thesis
      proof (cases "h = f")
        case True
        then show ?thesis using cc gf ng nh same[OF g'] by auto
      next
        case False
        then show ?thesis using cc gf ng nh separateD[OF sep g' h', of c'] by simp
      qed
    qed
  qed
qed

lemma separate_counters_update:
  "counters_separate st \<Longrightarrow> counters_separate (st\<lparr>counters := cs\<rparr>)"
  by (simp add: counters_separate_def)

lemma next_value_alloc_root:
  assumes wf: "counters_wf st" and f: "f < length (metas st)"
    and none: "counter (metas st ! f) = None" and g: "g < length (metas st)"
  shows "next_value setup_seq
           (set_counter f (Some (length (counters st))) (st\<lparr>counters := counters st @ [setup_seq f]\<rparr>)) g
         = next_value setup_seq st g"
proof (cases "g = f")
  case True
  then show ?thesis using f none by (simp add: next_value_def lookup_def set_counter_nth)
next
  case False
  show ?thesis
  proof (cases "counter (metas st ! g)")
    case None
    then show ?thesis using False g by (simp add: next_value_def lookup_def set_counter_nth)
  next
    case (Some c)
    then have "c < length (counters st)" using wf_counter_live[OF wf g] by simp
    then show ?thesis using False g Some
      by (simp add: next_value_def lookup_def set_counter_nth nth_append)
  qed
qed

lemma next_value_share:
  "g \<noteq> f \<Longrightarrow> next_value setup_seq (set_counter f c st) g = next_value setup_seq st g"
  by (simp add: next_value_def lookup_def set_counter_nth split: option.splits)

text \<open>What \<^verbatim>\<open>_initialize_counter\<close> leaves alone: no owner's next value changes.\<close>

lemma initialize_root_frame:
  assumes wf: "counters_wf st" and sep: "counters_separate st" and f: "f < length (metas st)"
    and root: "counter_reference (metas st ! f) = f"
  shows "\<exists>st'. initialize_counter (Suc d) setup_seq f st = Inr st' \<and> initialised setup_seq f st st'
           \<and> counters_separate st'
           \<and> (\<forall>g < length (metas st). next_value setup_seq st' g = next_value setup_seq st g)"
proof (cases "counter (metas st ! f)")
  case None
  let ?st' = "set_counter f (Some (length (counters st))) (st\<lparr>counters := counters st @ [setup_seq f]\<rparr>)"
  have "initialize_counter (Suc d) setup_seq f st = Inr ?st'"
    using initialize_root[OF f root] None by simp
  moreover have wf': "counters_wf ?st'" by (rule wf_alloc_root[OF wf f root None])
  moreover have "initialised setup_seq f st ?st'"
    using wf' f root None
    by (simp add: initialised_def set_counter_nth next_value_def lookup_def)
  moreover have "counters_separate ?st'" by (rule separate_alloc_root[OF wf sep f None])
  moreover have "\<forall>g < length (metas st). next_value setup_seq ?st' g = next_value setup_seq st g"
    using next_value_alloc_root[OF wf f None] by blast
  ultimately show ?thesis by blast
next
  case (Some c)
  have "initialize_counter (Suc d) setup_seq f st = Inr st"
    using initialize_root[OF f root] Some by simp
  moreover have "initialised setup_seq f st st"
    using wf f root Some by (auto simp: initialised_def next_value_def lookup_def counters_wf_iff)
  ultimately show ?thesis using sep by blast
qed

lemma initialize_frame:
  assumes wf: "counters_wf st" and sep: "counters_separate st" and f: "f < length (metas st)"
  shows "\<exists>st'. initialize_counter (Suc (Suc d)) setup_seq f st = Inr st' \<and> initialised setup_seq f st st'
           \<and> counters_separate st'
           \<and> (\<forall>g < length (metas st). counter_reference (metas st ! g) = g \<longrightarrow>
                 next_value setup_seq st' g = next_value setup_seq st g)"
proof -
  let ?r = "counter_reference (metas st ! f)"
  have r: "?r < length (metas st)" "counter_reference (metas st ! ?r) = ?r"
    using wf_reference[OF wf f] by simp_all
  show ?thesis
  proof (cases "?r = f")
    case True
    then show ?thesis using initialize_root_frame[OF wf sep f, of "Suc d" setup_seq] by auto
  next
    case nroot: False
    show ?thesis
    proof (cases "counter (metas st ! f)")
      case (Some c)
      have "initialize_counter (Suc (Suc d)) setup_seq f st = Inr st"
        using f Some by (simp add: lookup_def)
      moreover have "initialised setup_seq f st st"
        using wf f r Some by (auto simp: initialised_def next_value_def lookup_def counters_wf_iff)
      ultimately show ?thesis using sep by blast
    next
      case None
      obtain st1 where st1: "initialize_counter (Suc d) setup_seq ?r st = Inr st1"
          and i1: "initialised setup_seq ?r st st1" and sep1: "counters_separate st1"
          and fr1: "\<forall>g < length (metas st). next_value setup_seq st1 g = next_value setup_seq st g"
        using initialize_root_frame[OF wf sep r] by blast
      from i1 obtain c where wf1: "counters_wf st1"
        and refs1: "map counter_reference (metas st1) = map counter_reference (metas st)"
        and c: "counter (metas st1 ! ?r) = Some c" "c < length (counters st1)"
               "counters st1 ! c = next_value setup_seq st ?r"
        using r by (auto simp: initialised_def)
      have len1: "length (metas st1) = length (metas st)" using refs1 by (rule refs_length)
      have ref1: "counter_reference (metas st1 ! f) = ?r" using refs_nth[OF refs1 f] .
      let ?st' = "set_counter f (Some c) st1"
      have "initialize_counter (Suc (Suc d)) setup_seq f st = Inr ?st'"
        using f None nroot st1 r c len1 by (simp add: lookup_def del: initialize_counter.simps(2)
              add: initialize_counter.simps(2)[of "Suc d"])
      moreover have wf': "counters_wf ?st'"
        using wf_share[OF wf1, of f c] f len1 ref1 c nroot by simp
      moreover have "initialised setup_seq f st ?st'"
        using wf' refs1 c f r nroot len1
        by (simp add: initialised_def set_counter_nth)
      moreover have "counters_separate ?st'"
        using separate_share[OF wf1 sep1, of f c] f len1 ref1 c by simp
      moreover have "\<forall>g < length (metas st). counter_reference (metas st ! g) = g \<longrightarrow>
                 next_value setup_seq ?st' g = next_value setup_seq st g"
      proof (intro allI impI)
        fix g assume g: "g < length (metas st)" and gr: "counter_reference (metas st ! g) = g"
        have "g \<noteq> f" using gr nroot by auto
        then show "next_value setup_seq ?st' g = next_value setup_seq st g"
          using fr1 g by (simp add: next_value_share)
      qed
      ultimately show ?thesis by blast
    qed
  qed
qed

lemma next_value_counters_update:
  assumes "g < length (metas st)"
  shows "next_value setup_seq (st\<lparr>counters := (counters st)[c := v]\<rparr>) g
         = (if counter (metas st ! g) = Some c \<and> c < length (counters st) then v
            else next_value setup_seq st g)"
  using assms by (auto simp: next_value_def lookup_def list_update_beyond split: option.splits)

lemma next_frame:
  assumes wf: "counters_wf st" and sep: "counters_separate st" and f: "f < length (metas st)"
  shows "\<exists>st'. next_sequence (Suc (Suc d)) setup_seq f st
                 = Inr (next_value setup_seq st (counter_reference (metas st ! f)), st')
             \<and> counters_wf st' \<and> counters_separate st'
             \<and> map counter_reference (metas st') = map counter_reference (metas st)
             \<and> (\<forall>g < length (metas st). counter_reference (metas st ! g) = g \<longrightarrow>
                   next_value setup_seq st' g
                     = (if g = counter_reference (metas st ! f) then next_value setup_seq st g + 1
                        else next_value setup_seq st g))"
proof -
  let ?r = "counter_reference (metas st ! f)"
  have r: "?r < length (metas st)" "counter_reference (metas st ! ?r) = ?r"
    using wf_reference[OF wf f] by simp_all
  obtain st1 where st1: "initialize_counter (Suc (Suc d)) setup_seq f st = Inr st1"
    and i1: "initialised setup_seq f st st1" and sep1: "counters_separate st1"
    and fr1: "\<forall>g < length (metas st). counter_reference (metas st ! g) = g \<longrightarrow>
                 next_value setup_seq st1 g = next_value setup_seq st g"
    using initialize_frame[OF wf sep f] by blast
  from i1 obtain c where wf1: "counters_wf st1"
    and refs1: "map counter_reference (metas st1) = map counter_reference (metas st)"
    and c: "counter (metas st1 ! f) = Some c" "counter (metas st1 ! ?r) = Some c"
           "c < length (counters st1)" "counters st1 ! c = next_value setup_seq st ?r"
    by (auto simp: initialised_def)
  have len1: "length (metas st1) = length (metas st)" using refs1 by (rule refs_length)
  let ?st' = "st1\<lparr>counters := (counters st1)[c := counters st1 ! c + 1]\<rparr>"
  have "next_sequence (Suc (Suc d)) setup_seq f st = Inr (next_value setup_seq st ?r, ?st')"
    unfolding next_sequence_def st1 using f len1 c
    by (simp add: lookup_def Counter_next_def)
  moreover have "counters_wf ?st'" using wf1 by (rule wf_counters_update)
  moreover have "counters_separate ?st'" using sep1 by (rule separate_counters_update)
  moreover have "map counter_reference (metas ?st') = map counter_reference (metas st)"
    using refs1 by simp
  moreover have "\<forall>g < length (metas st). counter_reference (metas st ! g) = g \<longrightarrow>
                   next_value setup_seq ?st' g
                     = (if g = ?r then next_value setup_seq st g + 1 else next_value setup_seq st g)"
  proof (intro allI impI)
    fix g assume g: "g < length (metas st)" and gr: "counter_reference (metas st ! g) = g"
    have g1: "g < length (metas st1)" using g len1 by simp
    have gr1: "counter_reference (metas st1 ! g) = g" using refs_nth[OF refs1 g] gr by simp
    have rr1: "counter_reference (metas st1 ! ?r) = ?r" using refs_nth[OF refs1 r(1)] r(2) by simp
    have own: "counter (metas st1 ! g) = Some c \<longleftrightarrow> g = ?r"
    proof
      assume "counter (metas st1 ! g) = Some c"
      then have "counter_reference (metas st1 ! g) = counter_reference (metas st1 ! ?r)"
        using separateD[OF sep1 g1 _ _ c(2)] r(1) len1 by simp
      then show "g = ?r" using gr1 rr1 by simp
    next
      assume "g = ?r" then show "counter (metas st1 ! g) = Some c" using c(2) by simp
    qed
    show "next_value setup_seq ?st' g
            = (if g = ?r then next_value setup_seq st g + 1 else next_value setup_seq st g)"
      using next_value_counters_update[OF g1, of setup_seq c "counters st1 ! c + 1"] own c(3,4) fr1 g gr
      by auto
  qed
  ultimately show ?thesis by blast
qed

lemma reset_frame:
  assumes wf: "counters_wf st" and sep: "counters_separate st" and f: "f < length (metas st)"
    and ok: "counter_reference (metas st ! f) = f \<or> force"
  shows "\<exists>st' c. reset_sequence (Suc (Suc d)) setup_seq f val force st = Inr st'
             \<and> counters_wf st' \<and> counters_separate st'
             \<and> map counter_reference (metas st') = map counter_reference (metas st)
             \<and> counter (metas st' ! f) = Some c
             \<and> counter (metas st' ! counter_reference (metas st ! f)) = Some c
             \<and> c < length (counters st')
             \<and> counters st' ! c
                 = (case val of None \<Rightarrow> setup_seq (counter_reference (metas st ! f)) | Some v \<Rightarrow> v)
             \<and> (\<forall>g < length (metas st). counter_reference (metas st ! g) = g \<longrightarrow>
                   next_value setup_seq st' g
                     = (if g = counter_reference (metas st ! f)
                        then (case val of None \<Rightarrow> setup_seq (counter_reference (metas st ! f)) | Some v \<Rightarrow> v)
                        else next_value setup_seq st g))"
proof -
  let ?r = "counter_reference (metas st ! f)"
  let ?v = "case val of None \<Rightarrow> setup_seq ?r | Some v \<Rightarrow> v"
  have r: "?r < length (metas st)" "counter_reference (metas st ! ?r) = ?r"
    using wf_reference[OF wf f] by simp_all
  obtain st1 where st1: "initialize_counter (Suc (Suc d)) setup_seq f st = Inr st1"
    and i1: "initialised setup_seq f st st1" and sep1: "counters_separate st1"
    and fr1: "\<forall>g < length (metas st). counter_reference (metas st ! g) = g \<longrightarrow>
                 next_value setup_seq st1 g = next_value setup_seq st g"
    using initialize_frame[OF wf sep f] by blast
  from i1 obtain c where wf1: "counters_wf st1"
    and refs1: "map counter_reference (metas st1) = map counter_reference (metas st)"
    and c: "counter (metas st1 ! f) = Some c" "counter (metas st1 ! ?r) = Some c"
           "c < length (counters st1)"
    by (auto simp: initialised_def)
  have len1: "length (metas st1) = length (metas st)" using refs1 by (rule refs_length)
  have ref1: "counter_reference (metas st1 ! f) = ?r" using refs_nth[OF refs1 f] .
  let ?st' = "st1\<lparr>counters := (counters st1)[c := ?v]\<rparr>"
  have rs: "reset_sequence (Suc (Suc d)) setup_seq f val force st = Inr ?st'"
    unfolding reset_sequence_def st1 using f len1 ref1 c ok
    by (auto simp: lookup_def Counter_reset_def cong: option.case_cong)
  have wf': "counters_wf ?st'" using wf1 by (rule wf_counters_update)
  have sep': "counters_separate ?st'" using sep1 by (rule separate_counters_update)
  have refs': "map counter_reference (metas ?st') = map counter_reference (metas st)"
    using refs1 by simp
  have fr': "\<forall>g < length (metas st). counter_reference (metas st ! g) = g \<longrightarrow>
                   next_value setup_seq ?st' g = (if g = ?r then ?v else next_value setup_seq st g)"
  proof (intro allI impI)
    fix g assume g: "g < length (metas st)" and gr: "counter_reference (metas st ! g) = g"
    have g1: "g < length (metas st1)" using g len1 by simp
    have gr1: "counter_reference (metas st1 ! g) = g" using refs_nth[OF refs1 g] gr by simp
    have rr1: "counter_reference (metas st1 ! ?r) = ?r" using refs_nth[OF refs1 r(1)] r(2) by simp
    have own: "counter (metas st1 ! g) = Some c \<longleftrightarrow> g = ?r"
    proof
      assume "counter (metas st1 ! g) = Some c"
      then have "counter_reference (metas st1 ! g) = counter_reference (metas st1 ! ?r)"
        using separateD[OF sep1 g1 _ _ c(2)] r(1) len1 by simp
      then show "g = ?r" using gr1 rr1 by simp
    next
      assume "g = ?r" then show "counter (metas st1 ! g) = Some c" using c(2) by simp
    qed
    show "next_value setup_seq ?st' g = (if g = ?r then ?v else next_value setup_seq st g)"
      using next_value_counters_update[OF g1, of setup_seq c ?v] own c(3) fr1 g gr
      by auto
  qed
  show ?thesis
    using rs wf' sep' refs' c fr'
    by (intro exI[of _ ?st'] exI[of _ c]) simp
qed

lemma called_targets: "f \<in> set (called cs) \<Longrightarrow> f \<in> target ` set cs"
  by (induction cs rule: called.induct) auto

lemma values_for_refs:
  assumes refs: "map counter_reference (metas st1) = map counter_reference (metas st)"
    and reg: "\<forall>c \<in> set cs. target c < length (metas st)"
  shows "values_for st1 r cs vs = values_for st r cs vs"
proof -
  have "filter (\<lambda>(f, v). counter_reference (metas st1 ! f) = r) (zip (called cs) vs)
        = filter (\<lambda>(f, v). counter_reference (metas st ! f) = r) (zip (called cs) vs)"
  proof (rule filter_cong[OF refl])
    fix x assume x: "x \<in> set (zip (called cs) vs)"
    obtain f v where fv: "x = (f, v)" by (cases x)
    have "f \<in> set (called cs)" using x fv by (auto dest: set_zip_leftD)
    then have "f < length (metas st)" using called_targets reg by fastforce
    then show "(case x of (f, v) \<Rightarrow> counter_reference (metas st1 ! f) = r)
             = (case x of (f, v) \<Rightarrow> counter_reference (metas st ! f) = r)"
      using refs_nth[OF refs] fv by simp
  qed
  then show ?thesis by (simp add: values_for_def)
qed

lemma values_for_Next:
  "values_for st r (Next f # cs) (v # vs)
     = (if counter_reference (metas st ! f) = r then v # values_for st r cs vs
        else values_for st r cs vs)"
  by (simp add: values_for_def)

lemma values_for_Reset: "values_for st r (Reset f val force # cs) vs = values_for st r cs vs"
  by (simp add: values_for_def)

lemma consecutive_Cons:
  "v # map (\<lambda>i. v + 1 + int i) [0..<n] = map (\<lambda>i. v + int i) [0..<Suc n]"
  by (simp add: upt_rec[of 0 "Suc n"] map_Suc_upt[symmetric] del: upt_Suc)

lemma consecutive_increasing: "sorted_wrt (<) (map (\<lambda>i. (v::int) + int i) [0..<n])"
  by (simp add: sorted_wrt_map)

text \<open>A run that does not reset the counter of the owner \<open>r\<close> draws consecutive values
  from it, whatever it does to the other counters in between.\<close>

lemma run_frame:
  assumes "counters_wf st" and "counters_separate st"
    and "r < length (metas st)" and "counter_reference (metas st ! r) = r"
    and "\<forall>c \<in> set cs. target c < length (metas st)
           \<and> (is_reset c \<longrightarrow> counter_reference (metas st ! target c) \<noteq> r)"
    and "run_calls (Suc (Suc d)) setup_seq cs st = Inr (vs, st')"
  shows "values_for st r cs vs
           = map (\<lambda>i. next_value setup_seq st r + int i) [0..<length (values_for st r cs vs)]
       \<and> next_value setup_seq st' r
           = next_value setup_seq st r + int (length (values_for st r cs vs))
       \<and> counters_wf st' \<and> counters_separate st'
       \<and> map counter_reference (metas st') = map counter_reference (metas st)"
  using assms
proof (induction cs arbitrary: st vs)
  case Nil
  then show ?case by (simp add: values_for_def)
next
  case (Cons c cs)
  have reg: "\<forall>c \<in> set cs. target c < length (metas st)" using Cons.prems(5) by simp
  show ?case
  proof (cases c)
    case (Next f)
    have f: "f < length (metas st)" using Cons.prems(5) Next by simp
    obtain st1 where n1: "next_sequence (Suc (Suc d)) setup_seq f st
                 = Inr (next_value setup_seq st (counter_reference (metas st ! f)), st1)"
      and wf1: "counters_wf st1" and sep1: "counters_separate st1"
      and refs1: "map counter_reference (metas st1) = map counter_reference (metas st)"
      and fr1: "\<forall>g < length (metas st). counter_reference (metas st ! g) = g \<longrightarrow>
                   next_value setup_seq st1 g
                     = (if g = counter_reference (metas st ! f) then next_value setup_seq st g + 1
                        else next_value setup_seq st g)"
      using next_frame[OF Cons.prems(1,2) f, of d setup_seq] by blast
    obtain vs1 where run1: "run_calls (Suc (Suc d)) setup_seq cs st1 = Inr (vs1, st')"
      and vs: "vs = next_value setup_seq st (counter_reference (metas st ! f)) # vs1"
      using Cons.prems(6) Next n1 by (auto split: sum.splits)
    have len1: "length (metas st1) = length (metas st)" using refs1 by (rule refs_length)
    have r1: "r < length (metas st1)" "counter_reference (metas st1 ! r) = r"
      using Cons.prems(3,4) len1 refs_nth[OF refs1 Cons.prems(3)] by simp_all
    have calls1: "\<forall>c \<in> set cs. target c < length (metas st1)
           \<and> (is_reset c \<longrightarrow> counter_reference (metas st1 ! target c) \<noteq> r)"
      using Cons.prems(5) len1 refs_nth[OF refs1] by simp
    note ih = Cons.IH[OF wf1 sep1 r1 calls1 run1]
    have vf1: "values_for st1 r cs vs1 = values_for st r cs vs1"
      by (rule values_for_refs[OF refs1 reg])
    have cur: "next_value setup_seq st1 r
                 = (if r = counter_reference (metas st ! f) then next_value setup_seq st r + 1
                    else next_value setup_seq st r)"
      using fr1 Cons.prems(3,4) by simp
    show ?thesis
    proof (cases "counter_reference (metas st ! f) = r")
      case True
      have vf: "values_for st r (c # cs) vs = next_value setup_seq st r # values_for st r cs vs1"
        using Next vs True by (simp add: values_for_Next)
      have c1: "next_value setup_seq st1 r = next_value setup_seq st r + 1" using cur True by simp
      have "values_for st r cs vs1
              = map (\<lambda>i. next_value setup_seq st r + 1 + int i) [0..<length (values_for st r cs vs1)]"
        using ih vf1 c1 by simp
      then have "next_value setup_seq st r # values_for st r cs vs1
              = map (\<lambda>i. next_value setup_seq st r + int i) [0..<Suc (length (values_for st r cs vs1))]"
        using consecutive_Cons[of "next_value setup_seq st r" "length (values_for st r cs vs1)"]
        by simp
      then have a: "values_for st r (c # cs) vs
           = map (\<lambda>i. next_value setup_seq st r + int i) [0..<length (values_for st r (c # cs) vs)]"
        unfolding vf by simp
      have b: "next_value setup_seq st' r
           = next_value setup_seq st r + int (length (values_for st r (c # cs) vs))"
        unfolding vf using ih vf1 c1 by simp
      show ?thesis using a b ih refs1 by simp
    next
      case False
      have vf: "values_for st r (c # cs) vs = values_for st r cs vs1"
        using Next vs False by (simp add: values_for_Next)
      have c1: "next_value setup_seq st1 r = next_value setup_seq st r" using cur False by auto
      show ?thesis unfolding vf using ih vf1 c1 refs1 by simp
    qed
  next
    case (Reset f val force)
    have f: "f < length (metas st)" and fr: "counter_reference (metas st ! f) \<noteq> r"
      using Cons.prems(5) Reset by simp_all
    obtain st1 where rs: "reset_sequence (Suc (Suc d)) setup_seq f val force st = Inr st1"
      and run1: "run_calls (Suc (Suc d)) setup_seq cs st1 = Inr (vs, st')"
      using Cons.prems(6) Reset by (auto split: sum.splits)
    have ok: "counter_reference (metas st ! f) = f \<or> force"
    proof (rule ccontr)
      assume "\<not> (counter_reference (metas st ! f) = f \<or> force)"
      then have nr: "counter_reference (metas st ! f) \<noteq> f" and nf: "\<not> force" by simp_all
      have "reset_sequence (Suc (Suc d)) setup_seq f val force st
           = Inl (ResetDescendantError f (counter_reference (metas st ! f)))"
        by (rule reset_refused[OF Cons.prems(1) f nr nf])
      then show False using rs by simp
    qed
    obtain st2 where rs2: "reset_sequence (Suc (Suc d)) setup_seq f val force st = Inr st2"
      and wf2: "counters_wf st2" and sep2: "counters_separate st2"
      and refs2: "map counter_reference (metas st2) = map counter_reference (metas st)"
      and fr2: "\<forall>g < length (metas st). counter_reference (metas st ! g) = g \<longrightarrow>
                   next_value setup_seq st2 g
                     = (if g = counter_reference (metas st ! f)
                        then (case val of None \<Rightarrow> setup_seq (counter_reference (metas st ! f)) | Some v \<Rightarrow> v)
                        else next_value setup_seq st g)"
      using reset_frame[OF Cons.prems(1,2) f ok, of d setup_seq val] by blast
    have eq: "st2 = st1" using rs rs2 by simp
    have wf1: "counters_wf st1" and sep1: "counters_separate st1"
      and refs1: "map counter_reference (metas st1) = map counter_reference (metas st)"
      using wf2 sep2 refs2 eq by simp_all
    have cur: "next_value setup_seq st1 r = next_value setup_seq st r"
      using fr2 Cons.prems(3,4) fr eq by auto
    have len1: "length (metas st1) = length (metas st)" using refs1 by (rule refs_length)
    have r1: "r < length (metas st1)" "counter_reference (metas st1 ! r) = r"
      using Cons.prems(3,4) len1 refs_nth[OF refs1 Cons.prems(3)] by simp_all
    have calls1: "\<forall>c \<in> set cs. target c < length (metas st1)
           \<and> (is_reset c \<longrightarrow> counter_reference (metas st1 ! target c) \<noteq> r)"
      using Cons.prems(5) len1 refs_nth[OF refs1] by simp
    note ih = Cons.IH[OF wf1 sep1 r1 calls1 run1]
    have vf1: "values_for st1 r cs vs = values_for st r cs vs"
      by (rule values_for_refs[OF refs1 reg])
    have vf: "values_for st r (c # cs) vs = values_for st r cs vs"
      using Reset by (simp add: values_for_Reset)
    show ?thesis unfolding vf using ih vf1 cur refs1 by simp
  qed
qed

text \<open>A run of permitted calls on registered definitions returns.\<close>

lemma permitted_refs:
  assumes "map counter_reference (metas st1) = map counter_reference (metas st)"
    and "target c < length (metas st)"
  shows "permitted st1 c = permitted st c"
  using refs_nth[OF assms(1)] assms(2) by (cases c) simp_all

lemma run_total:
  assumes "counters_wf st" and "\<forall>c \<in> set cs. target c < length (metas st) \<and> permitted st c"
  shows "\<exists>vs st'. run_calls (Suc (Suc d)) setup_seq cs st = Inr (vs, st')"
  using assms
proof (induction cs arbitrary: st)
  case Nil
  then show ?case by simp
next
  case (Cons c cs)
  show ?case
  proof (cases c)
    case (Next f)
    have f: "f < length (metas st)" using Cons.prems(2) Next by simp
    obtain st1 where n1: "next_sequence (Suc (Suc d)) setup_seq f st
                   = Inr (next_value setup_seq st (counter_reference (metas st ! f)), st1)"
      and wf1: "counters_wf st1"
      and refs1: "map counter_reference (metas st1) = map counter_reference (metas st)"
      using next_step[OF Cons.prems(1) f, of d setup_seq] by blast
    have "\<forall>c \<in> set cs. target c < length (metas st1) \<and> permitted st1 c"
      using Cons.prems(2) refs_length[OF refs1] permitted_refs[OF refs1] by simp
    from Cons.IH[OF wf1 this]
    obtain vs st' where "run_calls (Suc (Suc d)) setup_seq cs st1 = Inr (vs, st')" by blast
    then show ?thesis using Next n1 by simp
  next
    case (Reset f val force)
    have f: "f < length (metas st)" and ok: "counter_reference (metas st ! f) = f \<or> force"
      using Cons.prems(2) Reset by simp_all
    obtain st1 where r1: "reset_sequence (Suc (Suc d)) setup_seq f val force st = Inr st1"
      and wf1: "counters_wf st1"
      and refs1: "map counter_reference (metas st1) = map counter_reference (metas st)"
      using reset_step[OF Cons.prems(1) f ok, of d setup_seq val] by blast
    have "\<forall>c \<in> set cs. target c < length (metas st1) \<and> permitted st1 c"
      using Cons.prems(2) refs_length[OF refs1] permitted_refs[OF refs1] by simp
    from Cons.IH[OF wf1 this]
    obtain vs st' where "run_calls (Suc (Suc d)) setup_seq cs st1 = Inr (vs, st')" by blast
    then show ?thesis using Reset r1 by simp
  qed
qed

lemma run_invariant:
  assumes "counters_wf st" and "counters_separate st"
    and "\<forall>c \<in> set cs. target c < length (metas st)"
    and "run_calls (Suc (Suc d)) setup_seq cs st = Inr (vs, st')"
  shows "counters_wf st' \<and> counters_separate st'
       \<and> map counter_reference (metas st') = map counter_reference (metas st)"
  using assms
proof (induction cs arbitrary: st vs)
  case Nil
  then show ?case by simp
next
  case (Cons c cs)
  show ?case
  proof (cases c)
    case (Next f)
    have f: "f < length (metas st)" using Cons.prems(3) Next by simp
    obtain st1 where n1: "next_sequence (Suc (Suc d)) setup_seq f st
                 = Inr (next_value setup_seq st (counter_reference (metas st ! f)), st1)"
      and wf1: "counters_wf st1" and sep1: "counters_separate st1"
      and refs1: "map counter_reference (metas st1) = map counter_reference (metas st)"
      using next_frame[OF Cons.prems(1,2) f, of d setup_seq] by blast
    obtain vs1 where run1: "run_calls (Suc (Suc d)) setup_seq cs st1 = Inr (vs1, st')"
      using Cons.prems(4) Next n1 by (auto split: sum.splits)
    have reg1: "\<forall>c \<in> set cs. target c < length (metas st1)"
      using Cons.prems(3) refs_length[OF refs1] by simp
    show ?thesis using Cons.IH[OF wf1 sep1 reg1 run1] refs1 by simp
  next
    case (Reset f val force)
    have f: "f < length (metas st)" using Cons.prems(3) Reset by simp
    obtain st1 where rs: "reset_sequence (Suc (Suc d)) setup_seq f val force st = Inr st1"
      and run1: "run_calls (Suc (Suc d)) setup_seq cs st1 = Inr (vs, st')"
      using Cons.prems(4) Reset by (auto split: sum.splits)
    have ok: "counter_reference (metas st ! f) = f \<or> force"
    proof (rule ccontr)
      assume "\<not> (counter_reference (metas st ! f) = f \<or> force)"
      then have nr: "counter_reference (metas st ! f) \<noteq> f" and nf: "\<not> force" by simp_all
      have "reset_sequence (Suc (Suc d)) setup_seq f val force st
           = Inl (ResetDescendantError f (counter_reference (metas st ! f)))"
        by (rule reset_refused[OF Cons.prems(1) f nr nf])
      then show False using rs by simp
    qed
    obtain st2 where rs2: "reset_sequence (Suc (Suc d)) setup_seq f val force st = Inr st2"
      and wf2: "counters_wf st2" and sep2: "counters_separate st2"
      and refs2: "map counter_reference (metas st2) = map counter_reference (metas st)"
      using reset_frame[OF Cons.prems(1,2) f ok, of d setup_seq val] by blast
    have eq: "st2 = st1" using rs rs2 by simp
    have wf1: "counters_wf st1" and sep1: "counters_separate st1"
      and refs1: "map counter_reference (metas st1) = map counter_reference (metas st)"
      using wf2 sep2 refs2 eq by simp_all
    have reg1: "\<forall>c \<in> set cs. target c < length (metas st1)"
      using Cons.prems(3) refs_length[OF refs1] by simp
    show ?thesis using Cons.IH[OF wf1 sep1 reg1 run1] refs1 by simp
  qed
qed

lemma run_calls_length:
  "run_calls depth setup_seq cs st = Inr (vs, st') \<Longrightarrow> length vs = length (called cs)"
proof (induction cs arbitrary: st vs)
  case Nil
  then show ?case by simp
next
  case (Cons c cs)
  show ?case
  proof (cases c)
    case (Next f)
    then obtain v st1 vs1 where "run_calls depth setup_seq cs st1 = Inr (vs1, st')" "vs = v # vs1"
      using Cons.prems by (auto split: sum.splits prod.splits)
    then show ?thesis using Cons.IH Next by simp
  next
    case (Reset f val force)
    then obtain st1 where "run_calls depth setup_seq cs st1 = Inr (vs, st')"
      using Cons.prems by (auto split: sum.splits)
    then show ?thesis using Cons.IH Reset by simp
  qed
qed

lemma contribute_to_class_separate:
  assumes reg: "contribute_to_class env cd st = Inr st'" and sep: "counters_separate st"
  shows "counters_separate st'"
proof -
  obtain m r where st': "st' = st\<lparr>metas := metas st @ [m]\<rparr>" and c: "counter m = None"
    using contribute_to_class_shape[OF reg] by blast
  show ?thesis
    unfolding counters_separate_iff
  proof (intro allI impI)
    fix f g c'
    assume f: "f < length (metas st')" and g: "g < length (metas st')"
      and cc: "counter (metas st' ! f) = Some c' \<and> counter (metas st' ! g) = Some c'"
    have "f \<noteq> length (metas st)" "g \<noteq> length (metas st)" using cc st' c by auto
    then have f': "f < length (metas st)" and g': "g < length (metas st)" using f g st' by auto
    then show "counter_reference (metas st' ! f) = counter_reference (metas st' ! g)"
      using cc st' separateD[OF sep f' g', of c'] by (simp add: nth_append)
  qed
qed

lemma next_value_registered:
  "g < length (metas st) \<Longrightarrow>
   next_value setup_seq (st\<lparr>metas := metas st @ [m]\<rparr>) g = next_value setup_seq st g"
  by (simp add: next_value_def lookup_def nth_append split: option.splits)

lemma next_value_fresh:
  "counter m = None \<Longrightarrow>
   next_value setup_seq (st\<lparr>metas := metas st @ [m]\<rparr>) (length (metas st)) = setup_seq (length (metas st))"
  by (simp add: next_value_def lookup_def)

text \<open>Every store built from nothing by registering definitions and calling the
  sequence interface on them satisfies the invariant.\<close>

lemma reachable_invariant:
  "reachable env setup_seq st \<Longrightarrow> counters_wf st \<and> counters_separate st"
proof (induction rule: reachable.induct)
  case nothing
  show ?case by (simp add: counters_wf_def counters_separate_def)
next
  case (registered st cd st')
  then show ?case using contribute_to_class_wf contribute_to_class_separate by blast
next
  case (run st depth cs vs st')
  obtain d where d: "depth = Suc (Suc d)" using two_le_depth[OF run.hyps(2)] by blast
  show ?case
    using run_invariant[OF _ _ run.hyps(3) run.hyps(4)[unfolded d]] run.IH by simp
qed

lemma zoo_store_wf: "counters_wf zoo_store"
  by (simp add: counters_wf_def zoo_store_def animal_options_def dog_options_def robot_options_def
        FactoryOptions_init_def)

lemma example_stores_separate:
  "counters_separate zoo_store" "counters_separate family_store" "counters_separate animal_store"
  "counters_separate empty_store"
  by (simp_all add: counters_separate_def zoo_store_def family_store_def animal_store_def
        empty_store_def animal_options_def dog_options_def robot_options_def FactoryOptions_init_def)


lemmas zoo_defs =
  zoo_store_def animal_options_def dog_options_def robot_options_def FactoryOptions_init_def

lemma zoo_run:
  "run_calls 2 (\<lambda>f. if f = 2 then 100 else 7)
     [Next 1, Next 2, Next 0, Reset 2 (Some 50) False, Next 2, Next 1] zoo_store
   = Inr ([7, 100, 8, 50, 9],
          \<lparr>metas = [animal_options\<lparr>counter := Some 0\<rparr>, dog_options\<lparr>counter := Some 0\<rparr>,
                    robot_options\<lparr>counter := Some 1\<rparr>],
           counters = [10, 51]\<rparr>)"
  by (simp add: numeral_2_eq_2 zoo_defs sequence_defs)


subsection \<open>C1: sequences\<close>

text \<open>
  C1, as the code has it. Let \<open>r\<close> be an owner (a registered definition that is its own
  counter reference) in a store satisfying the invariant, and let \<open>cs\<close> be any run of
  calls on registered definitions that does not reset the counter of \<open>r\<close>: calls of
  \<^verbatim>\<open>next_sequence\<close> on any definition, of the chain of \<open>r\<close> or of another, and resets
  of other counters. If the run returns, it returns one value per \<^verbatim>\<open>next_sequence\<close>
  call, and the values returned to the definitions whose counter reference is \<open>r\<close> are
  \<open>v, v + 1, \<dots>\<close> with \<open>v\<close> the next value of \<open>r\<close> before the run: each of them is
  greater than every one returned before it from that counter, whatever was done to the
  other counters in between. A run of permitted calls does return. \<open>v\<close> is the initial value
  of \<open>r\<close> when its counter has not been created yet. After a permitted
  \<^verbatim>\<open>reset_sequence(w)\<close> on a definition of the chain (the owner, or forced) the values
  are \<open>w, w + 1, \<dots>\<close>: the next value is exactly \<open>w\<close>.
\<close>

theorem next_sequence_consecutive:
  assumes "counters_wf st" and "counters_separate st" and "2 \<le> depth"
    and "r < length (metas st)" and "counter_reference (metas st ! r) = r"
    and "\<forall>c \<in> set cs. target c < length (metas st)
           \<and> (is_reset c \<longrightarrow> counter_reference (metas st ! target c) \<noteq> r)"
  shows "(\<forall>vs st'. run_calls depth setup_seq cs st = Inr (vs, st') \<longrightarrow>
            length vs = length (called cs)
          \<and> values_for st r cs vs
              = map (\<lambda>i. next_value setup_seq st r + int i) [0..<length (values_for st r cs vs)]
          \<and> sorted_wrt (<) (values_for st r cs vs)
          \<and> next_value setup_seq st' r
              = next_value setup_seq st r + int (length (values_for st r cs vs)))
       \<and> ((\<forall>c \<in> set cs. permitted st c) \<longrightarrow>
            (\<exists>vs st'. run_calls depth setup_seq cs st = Inr (vs, st')))
       \<and> (counter (metas st ! r) = None \<longrightarrow> next_value setup_seq st r = setup_seq r)
       \<and> (g < length (metas st) \<and> counter_reference (metas st ! g) = r \<and> (g = r \<or> force) \<longrightarrow>
            (\<exists>st1. reset_sequence depth setup_seq g (Some w) force st = Inr st1
               \<and> (\<forall>vs st'. run_calls depth setup_seq cs st1 = Inr (vs, st') \<longrightarrow>
                     values_for st r cs vs
                       = map (\<lambda>i. w + int i) [0..<length (values_for st r cs vs)])
               \<and> ((\<forall>c \<in> set cs. permitted st c) \<longrightarrow>
                    (\<exists>vs st'. run_calls depth setup_seq cs st1 = Inr (vs, st')))))"
proof -
  obtain d where d: "depth = Suc (Suc d)" using two_le_depth[OF assms(3)] by blast
  have part1: "length vs = length (called cs)
          \<and> values_for st r cs vs
              = map (\<lambda>i. next_value setup_seq st r + int i) [0..<length (values_for st r cs vs)]
          \<and> sorted_wrt (<) (values_for st r cs vs)
          \<and> next_value setup_seq st' r
              = next_value setup_seq st r + int (length (values_for st r cs vs))"
    if run: "run_calls depth setup_seq cs st = Inr (vs, st')" for vs st'
  proof -
    note f = run_frame[OF assms(1,2,4,5,6) run[unfolded d]]
    have "sorted_wrt (<) (values_for st r cs vs)"
      using consecutive_increasing[of "next_value setup_seq st r" "length (values_for st r cs vs)"]
        f[THEN conjunct1] by simp
    then show ?thesis using f run_calls_length[OF run] by simp
  qed
  have reg: "\<forall>c \<in> set cs. permitted st c \<Longrightarrow> \<forall>c \<in> set cs. target c < length (metas st) \<and> permitted st c"
    using assms(6) by simp
  have part2: "\<exists>vs st'. run_calls depth setup_seq cs st = Inr (vs, st')"
    if nr: "\<forall>c \<in> set cs. permitted st c"
    using run_total[OF assms(1) reg[OF nr], of d setup_seq] d by simp
  have part3: "counter (metas st ! r) = None \<longrightarrow> next_value setup_seq st r = setup_seq r"
    using assms(4) by (simp add: next_value_def lookup_def)
  have part4: "\<exists>st1. reset_sequence depth setup_seq g (Some w) force st = Inr st1
               \<and> (\<forall>vs st'. run_calls depth setup_seq cs st1 = Inr (vs, st') \<longrightarrow>
                     values_for st r cs vs
                       = map (\<lambda>i. w + int i) [0..<length (values_for st r cs vs)])
               \<and> ((\<forall>c \<in> set cs. permitted st c) \<longrightarrow>
                    (\<exists>vs st'. run_calls depth setup_seq cs st1 = Inr (vs, st')))"
    if h: "g < length (metas st)" "counter_reference (metas st ! g) = r" "g = r \<or> force"
  proof -
    have ok: "counter_reference (metas st ! g) = g \<or> force" using h by auto
    obtain st1 where rs: "reset_sequence (Suc (Suc d)) setup_seq g (Some w) force st = Inr st1"
      and wf1: "counters_wf st1" and sep1: "counters_separate st1"
      and refs1: "map counter_reference (metas st1) = map counter_reference (metas st)"
      and fr1: "\<forall>g' < length (metas st). counter_reference (metas st ! g') = g' \<longrightarrow>
                   next_value setup_seq st1 g'
                     = (if g' = counter_reference (metas st ! g)
                        then (case Some w of None \<Rightarrow> setup_seq (counter_reference (metas st ! g)) | Some v \<Rightarrow> v)
                        else next_value setup_seq st g')"
      using reset_frame[OF assms(1,2) h(1) ok, of d setup_seq "Some w"] by blast
    have cur: "next_value setup_seq st1 r = w" using fr1 assms(4,5) h(2) by simp
    have len1: "length (metas st1) = length (metas st)" using refs1 by (rule refs_length)
    have r1: "r < length (metas st1)" "counter_reference (metas st1 ! r) = r"
      using assms(4,5) len1 refs_nth[OF refs1 assms(4)] by simp_all
    have calls1: "\<forall>c \<in> set cs. target c < length (metas st1)
           \<and> (is_reset c \<longrightarrow> counter_reference (metas st1 ! target c) \<noteq> r)"
      using assms(6) len1 refs_nth[OF refs1] by simp
    have regs: "\<forall>c \<in> set cs. target c < length (metas st)" using assms(6) by simp
    have a: "values_for st r cs vs = map (\<lambda>i. w + int i) [0..<length (values_for st r cs vs)]"
      if run: "run_calls depth setup_seq cs st1 = Inr (vs, st')" for vs st'
      using run_frame[OF wf1 sep1 r1 calls1 run[unfolded d], THEN conjunct1]
        values_for_refs[OF refs1 regs, of r vs] cur by simp
    have b: "\<exists>vs st'. run_calls depth setup_seq cs st1 = Inr (vs, st')"
      if nr: "\<forall>c \<in> set cs. permitted st c"
    proof -
      have "\<forall>c \<in> set cs. target c < length (metas st1) \<and> permitted st1 c"
        using nr regs len1 permitted_refs[OF refs1] by simp
      from run_total[OF wf1 this, of d setup_seq] show ?thesis using d by simp
    qed
    show ?thesis using rs a b d by (intro exI[of _ st1]) simp
  qed
  show ?thesis using part1 part2 part3 part4 by (intro conjI allI impI) blast+
qed

text \<open>The theorem at \<^verbatim>\<open>AnimalFactory\<close>, with \<^verbatim>\<open>DogFactory\<close> sharing its counter
  and \<^verbatim>\<open>RobotFactory\<close> owning another: the initial values are 7 and, for
  \<^verbatim>\<open>RobotFactory\<close>, 100; the calls on \<^verbatim>\<open>RobotFactory\<close>, a reset among them, come
  between those on the other two, which receive 7, 8, 9.\<close>

theorem next_sequence_consecutive_witness:
  "counters_wf zoo_store \<and> counters_separate zoo_store \<and> (2::nat) \<le> 2
   \<and> (0::nat) < length (metas zoo_store) \<and> counter_reference (metas zoo_store ! 0) = 0
   \<and> (\<exists>st'. run_calls 2 (\<lambda>f. if f = 2 then 100 else 7)
                [Next 1, Next 2, Next 0, Reset 2 (Some 50) False, Next 2, Next 1] zoo_store
              = Inr ([7, 100, 8, 50, 9], st'))
   \<and> values_for zoo_store 0 [Next 1, Next 2, Next 0, Reset 2 (Some 50) False, Next 2, Next 1]
        [7, 100, 8, 50, 9] = [7, 8, 9]
   \<and> sorted_wrt (<) (values_for zoo_store 0
        [Next 1, Next 2, Next 0, Reset 2 (Some 50) False, Next 2, Next 1] [7, 100, 8, 50, 9])"
proof -
  let ?cs = "[Next 1, Next 2, Next 0, Reset 2 (Some 50) False, Next 2, Next 1]"
  let ?initial = "\<lambda>f::nat. if f = 2 then 100 else (7::int)"
  have r: "(0::nat) < length (metas zoo_store)" "counter_reference (metas zoo_store ! 0) = 0"
    by (simp_all add: zoo_defs)
  have calls: "\<forall>c \<in> set ?cs. target c < length (metas zoo_store)
           \<and> (is_reset c \<longrightarrow> counter_reference (metas zoo_store ! target c) \<noteq> 0)"
    by (simp add: zoo_defs)
  have vf: "values_for zoo_store 0 ?cs [7, 100, 8, 50, 9] = [7, 8, 9]"
    by (simp add: values_for_def zoo_defs)
  note t = next_sequence_consecutive[OF zoo_store_wf example_stores_separate(1) order_refl r calls,
             where setup_seq = ?initial, THEN conjunct1, rule_format, OF zoo_run]
  have s: "sorted_wrt (<) (values_for zoo_store 0 ?cs [7, 100, 8, 50, 9])"
    using t by (elim conjE)
  show ?thesis
    using zoo_store_wf example_stores_separate(1) r zoo_run vf s by simp
qed

text \<open>The claim as stated asks that every call return more than every value returned
  before. A reset is allowed to rewind the counter: the calls next, next, reset(0), next
  return 0, 1, 0.\<close>

theorem next_sequence_after_reset_counterexample:
  "map_sum id fst (run_calls 2 (\<lambda>f. 0) [Next 1, Next 0, Reset 0 (Some 0) False, Next 1] family_store)
     = Inr [0, 1, 0]"
  by (simp add: numeral_2_eq_2 example_store_defs sequence_defs)

subsection \<open>C6: who may reset a sequence\<close>

text \<open>
  C6. In a store satisfying the invariant, \<^verbatim>\<open>reset_sequence\<close> on the definition \<open>f\<close>
  raises the ownership error, which names \<open>f\<close> and the owning definition, exactly when the
  counter reference of \<open>f\<close> is another definition and \<open>force\<close> is false. Otherwise it
  succeeds and sets the next value of the shared counter: in the store it leaves, which
  satisfies the invariant and has the counter references it had, \<open>f\<close> and the owning
  definition hold one counter object, whose \<^verbatim>\<open>seq\<close> is the given value (or the
  owner's initial value when none is given); that value is what the next
  \<^verbatim>\<open>next_sequence\<close> returns on every definition that shares the counter; and the next
  value of every other owner is what it was.
\<close>

theorem reset_sequence_ownership:
  assumes "counters_wf st" and "counters_separate st" and "2 \<le> depth"
    and "lookup st f = Some m"
  shows "if counter_reference m \<noteq> f \<and> \<not> force
         then reset_sequence depth setup_seq f val force st
                = Inl (ResetDescendantError f (counter_reference m))
         else (\<exists>st' c.
                 reset_sequence depth setup_seq f val force st = Inr st'
               \<and> counters_wf st' \<and> counters_separate st'
               \<and> map counter_reference (metas st') = map counter_reference (metas st)
               \<and> counter (metas st' ! f) = Some c
               \<and> counter (metas st' ! counter_reference m) = Some c
               \<and> c < length (counters st')
               \<and> counters st' ! c
                   = (case val of None \<Rightarrow> setup_seq (counter_reference m) | Some v \<Rightarrow> v)
               \<and> (\<forall>g < length (metas st). counter_reference (metas st ! g) = counter_reference m \<longrightarrow>
                     (\<exists>st''. next_sequence depth setup_seq g st'
                        = Inr (case val of None \<Rightarrow> setup_seq (counter_reference m) | Some v \<Rightarrow> v, st'')))
               \<and> (\<forall>r < length (metas st). counter_reference (metas st ! r) = r
                        \<and> r \<noteq> counter_reference m \<longrightarrow>
                     next_value setup_seq st' r = next_value setup_seq st r))"
proof -
  obtain d where d: "depth = Suc (Suc d)" using two_le_depth[OF assms(3)] by blast
  have f: "f < length (metas st)" and m: "m = metas st ! f"
    using assms(4) by (auto simp: lookup_Some_iff)
  let ?r = "counter_reference (metas st ! f)"
  let ?v = "case val of None \<Rightarrow> setup_seq ?r | Some v \<Rightarrow> v"
  have r: "?r < length (metas st)" "counter_reference (metas st ! ?r) = ?r"
    using wf_reference[OF assms(1) f] by simp_all
  show ?thesis
  proof (cases "counter_reference m \<noteq> f \<and> \<not> force")
    case True
    then show ?thesis using reset_refused[OF assms(1) f, of force d setup_seq val] m d by simp
  next
    case False
    then have ok: "?r = f \<or> force" using m by auto
    obtain st' c where rs: "reset_sequence (Suc (Suc d)) setup_seq f val force st = Inr st'"
      and wf': "counters_wf st'" and sep': "counters_separate st'"
      and refs': "map counter_reference (metas st') = map counter_reference (metas st)"
      and cf: "counter (metas st' ! f) = Some c" and cr: "counter (metas st' ! ?r) = Some c"
      and cl: "c < length (counters st')" and cv: "counters st' ! c = ?v"
      and fr: "\<forall>g < length (metas st). counter_reference (metas st ! g) = g \<longrightarrow>
                   next_value setup_seq st' g = (if g = ?r then ?v else next_value setup_seq st g)"
      using reset_frame[OF assms(1,2) f ok, of d setup_seq val] by blast
    have len': "length (metas st') = length (metas st)" using refs' by (rule refs_length)
    have cur: "next_value setup_seq st' ?r = ?v" using fr r by simp
    have nx: "\<forall>g < length (metas st). counter_reference (metas st ! g) = ?r \<longrightarrow>
                (\<exists>st''. next_sequence depth setup_seq g st' = Inr (?v, st''))"
    proof (intro allI impI)
      fix g assume g: "g < length (metas st)" and gr: "counter_reference (metas st ! g) = ?r"
      have g': "g < length (metas st')" using g len' by simp
      have gr': "counter_reference (metas st' ! g) = ?r" using refs_nth[OF refs' g] gr by simp
      from next_step[OF wf' g', of d setup_seq]
      show "\<exists>st''. next_sequence depth setup_seq g st' = Inr (?v, st'')"
        using gr' cur d by auto
    qed
    have other: "\<forall>r' < length (metas st). counter_reference (metas st ! r') = r' \<and> r' \<noteq> ?r \<longrightarrow>
                   next_value setup_seq st' r' = next_value setup_seq st r'"
      using fr by simp
    have rs': "reset_sequence depth setup_seq f val force st = Inr st'" using rs d by simp
    have body: "\<exists>st' c.
                 reset_sequence depth setup_seq f val force st = Inr st'
               \<and> counters_wf st' \<and> counters_separate st'
               \<and> map counter_reference (metas st') = map counter_reference (metas st)
               \<and> counter (metas st' ! f) = Some c
               \<and> counter (metas st' ! ?r) = Some c
               \<and> c < length (counters st')
               \<and> counters st' ! c = ?v
               \<and> (\<forall>g < length (metas st). counter_reference (metas st ! g) = ?r \<longrightarrow>
                     (\<exists>st''. next_sequence depth setup_seq g st' = Inr (?v, st'')))
               \<and> (\<forall>r' < length (metas st). counter_reference (metas st ! r') = r' \<and> r' \<noteq> ?r \<longrightarrow>
                     next_value setup_seq st' r' = next_value setup_seq st r')"
      by (rule exI[of _ st'], rule exI[of _ c], intro conjI)
         (fact rs' wf' sep' refs' cf cr cl cv nx other)+
    have no: "\<not> (counter_reference (metas st ! f) \<noteq> f \<and> \<not> force)" using False m by simp
    show ?thesis unfolding m by (simp only: no if_False body)
  qed
qed

text \<open>The theorem at \<^verbatim>\<open>DogFactory\<close>, whose counter reference is
  \<^verbatim>\<open>AnimalFactory\<close>: refused without \<open>force\<close>; with it, the counter of
  \<^verbatim>\<open>AnimalFactory\<close> is set, \<^verbatim>\<open>AnimalFactory\<close> delivers the value next, and the
  counter of \<^verbatim>\<open>RobotFactory\<close> is left alone.\<close>

theorem reset_sequence_ownership_witness:
  "counters_wf zoo_store \<and> counters_separate zoo_store \<and> (2::nat) \<le> 2
   \<and> lookup zoo_store 1 = Some dog_options
   \<and> reset_sequence 2 (\<lambda>f. 0) 1 (Some 5) False zoo_store = Inl (ResetDescendantError 1 0)
   \<and> (\<exists>st' c. reset_sequence 2 (\<lambda>f. 0) 1 (Some 5) True zoo_store = Inr st'
          \<and> counters_wf st' \<and> counter (metas st' ! 1) = Some c \<and> counter (metas st' ! 0) = Some c
          \<and> c < length (counters st') \<and> counters st' ! c = 5
          \<and> (\<exists>st''. next_sequence 2 (\<lambda>f. 0) 0 st' = Inr (5, st''))
          \<and> next_value (\<lambda>f. 0) st' 2 = next_value (\<lambda>f. 0) zoo_store 2)"
proof -
  have lk: "lookup zoo_store 1 = Some dog_options"
    by (simp add: lookup_def zoo_store_def)
  have nr: "counter_reference dog_options = 0" by (simp add: dog_options_def FactoryOptions_init_def)
  have z: "(0::nat) < length (metas zoo_store)" "counter_reference (metas zoo_store ! 0) = 0"
    "(2::nat) < length (metas zoo_store)" "counter_reference (metas zoo_store ! 2) = 2"
    by (simp_all add: zoo_defs)
  note t = reset_sequence_ownership[OF zoo_store_wf example_stores_separate(1) order_refl lk,
             where setup_seq = "\<lambda>f. 0" and val = "Some 5"]
  have refused: "reset_sequence 2 (\<lambda>f. 0) 1 (Some 5) False zoo_store = Inl (ResetDescendantError 1 0)"
    using t[where force = False] nr by simp
  from t[where force = True] nr
  obtain st' c where rs: "reset_sequence 2 (\<lambda>f. 0) 1 (Some 5) True zoo_store = Inr st'"
    and wf': "counters_wf st'"
    and c: "counter (metas st' ! 1) = Some c" "counter (metas st' ! 0) = Some c"
       "c < length (counters st')" "counters st' ! c = 5"
    and nx: "\<forall>g < length (metas zoo_store). counter_reference (metas zoo_store ! g) = 0 \<longrightarrow>
                     (\<exists>st''. next_sequence 2 (\<lambda>f. 0) g st' = Inr (5, st''))"
    and fr: "\<forall>r < length (metas zoo_store). counter_reference (metas zoo_store ! r) = r \<and> r \<noteq> 0 \<longrightarrow>
                     next_value (\<lambda>f. 0) st' r = next_value (\<lambda>f. 0) zoo_store r"
    by auto
  have nx0: "\<exists>st''. next_sequence 2 (\<lambda>f. 0) 0 st' = Inr (5, st'')" using nx z by blast
  have fr2: "next_value (\<lambda>f. 0) st' 2 = next_value (\<lambda>f. 0) zoo_store 2" using fr z by simp
  have ex: "\<exists>st' c. reset_sequence 2 (\<lambda>f. 0) 1 (Some 5) True zoo_store = Inr st'
          \<and> counters_wf st' \<and> counter (metas st' ! 1) = Some c \<and> counter (metas st' ! 0) = Some c
          \<and> c < length (counters st') \<and> counters st' ! c = 5
          \<and> (\<exists>st''. next_sequence 2 (\<lambda>f. 0) 0 st' = Inr (5, st''))
          \<and> next_value (\<lambda>f. 0) st' 2 = next_value (\<lambda>f. 0) zoo_store 2"
    by (rule exI[of _ st'], rule exI[of _ c], intro conjI)
       (simp_all only: rs wf' c nx0 fr2)
  show ?thesis
    by (intro conjI)
       (simp_all only: zoo_store_wf example_stores_separate order_refl lk refused ex)
qed

subsection \<open>C9: one counter per sharing chain\<close>

text \<open>
  C9. In a store satisfying the invariant, \<^verbatim>\<open>_initialize_counter\<close> on \<open>f\<close> succeeds
  and leaves \<open>f\<close> and its counter reference \<open>r\<close> holding the same counter object;
  calling it again changes nothing; and \<^verbatim>\<open>next_sequence\<close> on \<open>f\<close>, then on any
  \<open>g\<close> with the same counter reference, returns \<open>v\<close> and then \<open>v + 1\<close>: both advance
  one cursor.
\<close>

theorem initialize_counter_idempotent_shared:
  assumes "counters_wf st" and "2 \<le> depth"
    and "f < length (metas st)" and "g < length (metas st)"
    and "counter_reference (metas st ! f) = r" and "counter_reference (metas st ! g) = r"
  shows "\<exists>st1 c. initialize_counter depth setup_seq f st = Inr st1
           \<and> counter (metas st1 ! f) = Some c \<and> counter (metas st1 ! r) = Some c
           \<and> c < length (counters st1) \<and> counters_wf st1
           \<and> initialize_counter depth setup_seq f st1 = Inr st1
           \<and> (\<exists>v st2. run_calls depth setup_seq [Next f, Next g] st = Inr ([v, v + 1], st2))"
proof -
  obtain d where d: "depth = Suc (Suc d)" using two_le_depth[OF assms(2)] by blast
  obtain st1 where st1: "initialize_counter depth setup_seq f st = Inr st1"
    and i1: "initialised setup_seq f st st1"
    using initialize_wf[OF assms(1) assms(3), of d setup_seq] d by blast
  from i1 assms(5) obtain c where c: "counter (metas st1 ! f) = Some c" "counter (metas st1 ! r) = Some c"
     "c < length (counters st1)" and wf1: "counters_wf st1"
    by (auto simp: initialised_def)
  have again: "initialize_counter depth setup_seq f st1 = Inr st1"
    using initialize_counter_again[OF st1, of "Suc d" setup_seq] d by simp
  have fam: "\<forall>h \<in> set [f, g]. h < length (metas st) \<and> counter_reference (metas st ! h) = r"
    using assms by simp
  obtain st2 where "run_calls depth setup_seq (map Next [f, g]) st
                 = Inr (map (\<lambda>i. next_value setup_seq st r + int i) [0..<length [f, g]], st2)"
    using run_next_family[OF assms(1) fam, of d setup_seq] d by blast
  then have run: "run_calls depth setup_seq [Next f, Next g] st
                 = Inr ([next_value setup_seq st r, next_value setup_seq st r + 1], st2)"
    by (simp add: upt_rec[of 0] upt_rec[of 1] del: run_calls.simps)
  show ?thesis using st1 c wf1 again run by blast
qed

text \<open>The theorem at \<^verbatim>\<open>DogFactory\<close> and \<^verbatim>\<open>AnimalFactory\<close>.\<close>

theorem initialize_counter_idempotent_shared_witness:
  "counters_wf family_store \<and> (2::nat) \<le> 2
   \<and> (1::nat) < length (metas family_store) \<and> (0::nat) < length (metas family_store)
   \<and> counter_reference (metas family_store ! 1) = 0 \<and> counter_reference (metas family_store ! 0) = 0
   \<and> (\<exists>st1 c. initialize_counter 2 (\<lambda>f. 0) 1 family_store = Inr st1
           \<and> counter (metas st1 ! 1) = Some c \<and> counter (metas st1 ! 0) = Some c
           \<and> c < length (counters st1) \<and> counters_wf st1
           \<and> initialize_counter 2 (\<lambda>f. 0) 1 st1 = Inr st1
           \<and> (\<exists>v st2. run_calls 2 (\<lambda>f. 0) [Next 1, Next 0] family_store = Inr ([v, v + 1], st2)))"
proof -
  have h: "(1::nat) < length (metas family_store)" "(0::nat) < length (metas family_store)"
    "counter_reference (metas family_store ! 1) = 0" "counter_reference (metas family_store ! 0) = 0"
    by (simp_all add: example_store_defs)
  show ?thesis
    using initialize_counter_idempotent_shared[OF example_stores_wf(1) order_refl h, where setup_seq = "\<lambda>f. 0"] h
    by (simp add: example_stores_wf del: run_calls.simps initialize_counter.simps)
qed


subsection \<open>C2: the counter reference\<close>

lemma issubclass_refl: "issubclass c c"
  by (cases c) simp_all

lemma issubclass_strict: "issubclass c d \<longleftrightarrow> strict_subclass c d \<or> c = d"
  using issubclass_refl by (auto simp: strict_subclass_def)

lemmas registration_defs =
  contribute_to_class_def resolve_base_meta_def fill_from_meta_def FactoryOptions_init_def
  apply_option_def force_abstract_def get_counter_reference_def collect_declarations_def
  derive_auto_fields_def collect_parameters_def finish_registration_def
  check_parameter_dependencies_def declarations_def dict_update_def lookup_def
  CREATE_STRATEGY_def is_private_def option_names_def

lemmas example_defs =
  example_env_def plain_class_def no_meta_def empty_store_def animal_store_def family_store_def
  animal_options_def dog_options_def Animal_def Dog_def

text \<open>
  C2, as the code has it. A definition registered in a store satisfying the invariant
  takes its base's counter reference exactly when it has a target type, its base has
  one, and \<^verbatim>\<open>issubclass\<close> holds of the two: the definition's target type is a proper
  subtype of the base's (by inheritance or as a registered virtual subclass) or is the
  very same class. In every other case (no base, no target type on either side, target
  types that are not related, two classes that only share a name) it is its own counter
  reference. The base's counter reference is never the new definition itself. An own
  counter is independent: registration changes the next value of no existing definition;
  the first \<^verbatim>\<open>next_sequence\<close> on the new definition returns the next value of its
  counter reference, which is its own initial value when the reference is itself, and
  advances that counter alone; and \<^verbatim>\<open>next_sequence\<close> on a definition with another
  counter reference leaves the new definition's next value as it was.
\<close>

theorem counter_reference_rule:
  assumes "contribute_to_class env cd st = Inr st'" and "counters_wf st"
    and "counters_separate st" and "2 \<le> depth"
  shows "\<exists>m. st' = st\<lparr>metas := metas st @ [m]\<rparr>
           \<and> (case cd_base_factory cd of
                None \<Rightarrow> counter_reference m = length (metas st)
              | Some b \<Rightarrow>
                  (case lookup st b of
                     None \<Rightarrow> counter_reference m = length (metas st)
                   | Some bm \<Rightarrow>
                       counter_reference bm \<noteq> length (metas st)
                     \<and> counter_reference m =
                         (if \<exists>c cb. model m = Some c \<and> model bm = Some cb
                                   \<and> (strict_subclass c cb \<or> c = cb)
                          then counter_reference bm else length (metas st))))
           \<and> counters_wf st' \<and> counters_separate st'
           \<and> (counter_reference m = length (metas st) \<longrightarrow>
                 next_value setup_seq st' (length (metas st)) = setup_seq (length (metas st)))
           \<and> (\<forall>g < length (metas st). next_value setup_seq st' g = next_value setup_seq st g)
           \<and> (\<exists>st''. next_sequence depth setup_seq (length (metas st)) st'
                         = Inr (next_value setup_seq st' (counter_reference m), st'')
                 \<and> (\<forall>g < length (metas st'). counter_reference (metas st' ! g) = g \<longrightarrow>
                       next_value setup_seq st'' g
                         = (if g = counter_reference m then next_value setup_seq st' g + 1
                            else next_value setup_seq st' g)))
           \<and> (\<forall>f < length (metas st). counter_reference (metas st ! f) \<noteq> counter_reference m \<longrightarrow>
                 (\<exists>st''. next_sequence depth setup_seq f st'
                            = Inr (next_value setup_seq st' (counter_reference (metas st ! f)), st'')
                    \<and> next_value setup_seq st'' (counter_reference m)
                        = next_value setup_seq st' (counter_reference m)))"
proof -
  obtain d where d: "depth = Suc (Suc d)" using two_le_depth[OF assms(4)] by blast
  obtain m r where st': "st' = st\<lparr>metas := metas st @ [m]\<rparr>"
    and cm: "counter m = None"
    and r: "counter_reference m = r"
    and g: "get_counter_reference st (length (metas st)) (model m) (cd_base_factory cd) = Inr r"
    using contribute_to_class_shape[OF assms(1)] by blast
  have bm: "counter_reference bm \<noteq> length (metas st)" if "lookup st b = Some bm" for b bm
    using that assms(2) by (auto simp: lookup_Some_iff counters_wf_iff)
  have rule: "case cd_base_factory cd of
                None \<Rightarrow> counter_reference m = length (metas st)
              | Some b \<Rightarrow>
                  (case lookup st b of
                     None \<Rightarrow> counter_reference m = length (metas st)
                   | Some bm \<Rightarrow>
                       counter_reference bm \<noteq> length (metas st)
                     \<and> counter_reference m =
                         (if \<exists>c cb. model m = Some c \<and> model bm = Some cb
                                   \<and> (strict_subclass c cb \<or> c = cb)
                          then counter_reference bm else length (metas st)))"
    unfolding r using g bm
    by (auto simp: get_counter_reference_def issubclass_strict[symmetric] split: option.splits if_splits)
  have wf': "counters_wf st'" by (rule contribute_to_class_wf[OF assms(1,2)])
  have sep': "counters_separate st'" by (rule contribute_to_class_separate[OF assms(1,3)])
  let ?n = "length (metas st)"
  have n: "?n < length (metas st')" and mn: "metas st' ! ?n = m" using st' by simp_all
  have old: "metas st' ! f = metas st ! f" if "f < length (metas st)" for f
    using that st' by (simp add: nth_append)
  have rroot: "counter_reference m < length (metas st')"
    "counter_reference (metas st' ! counter_reference m) = counter_reference m"
    using wf_reference[OF wf' n] mn by simp_all
  have fresh: "counter_reference m = ?n \<longrightarrow> next_value setup_seq st' ?n = setup_seq ?n"
    unfolding st' using next_value_fresh[OF cm] by simp
  have kept: "\<forall>g < length (metas st). next_value setup_seq st' g = next_value setup_seq st g"
    unfolding st' using next_value_registered by blast
  have own: "\<exists>st''. next_sequence depth setup_seq ?n st'
                         = Inr (next_value setup_seq st' (counter_reference m), st'')
                 \<and> (\<forall>g < length (metas st'). counter_reference (metas st' ! g) = g \<longrightarrow>
                       next_value setup_seq st'' g
                         = (if g = counter_reference m then next_value setup_seq st' g + 1
                            else next_value setup_seq st' g))"
  proof -
    from next_frame[OF wf' sep' n, of d setup_seq]
    obtain st'' where a: "next_sequence (Suc (Suc d)) setup_seq ?n st'
                 = Inr (next_value setup_seq st' (counter_reference (metas st' ! ?n)), st'')"
      and b: "\<forall>g < length (metas st'). counter_reference (metas st' ! g) = g \<longrightarrow>
                   next_value setup_seq st'' g
                     = (if g = counter_reference (metas st' ! ?n) then next_value setup_seq st' g + 1
                        else next_value setup_seq st' g)"
      by blast
    show ?thesis
      by (rule exI[of _ st''], intro conjI) (use a b d mn in simp_all)
  qed
  have others: "\<forall>f < length (metas st). counter_reference (metas st ! f) \<noteq> counter_reference m \<longrightarrow>
                 (\<exists>st''. next_sequence depth setup_seq f st'
                            = Inr (next_value setup_seq st' (counter_reference (metas st ! f)), st'')
                    \<and> next_value setup_seq st'' (counter_reference m)
                        = next_value setup_seq st' (counter_reference m))"
  proof (intro allI impI)
    fix f assume f: "f < length (metas st)"
      and ne: "counter_reference (metas st ! f) \<noteq> counter_reference m"
    have f': "f < length (metas st')" using f st' by simp
    from next_frame[OF wf' sep' f', of d setup_seq]
    obtain st'' where a: "next_sequence (Suc (Suc d)) setup_seq f st'
                 = Inr (next_value setup_seq st' (counter_reference (metas st' ! f)), st'')"
      and b: "\<forall>g < length (metas st'). counter_reference (metas st' ! g) = g \<longrightarrow>
                   next_value setup_seq st'' g
                     = (if g = counter_reference (metas st' ! f) then next_value setup_seq st' g + 1
                        else next_value setup_seq st' g)"
      by blast
    have c: "next_value setup_seq st'' (counter_reference m) = next_value setup_seq st' (counter_reference m)"
      using b rroot ne old[OF f] by auto
    show "\<exists>st''. next_sequence depth setup_seq f st'
                            = Inr (next_value setup_seq st' (counter_reference (metas st ! f)), st'')
                    \<and> next_value setup_seq st'' (counter_reference m)
                        = next_value setup_seq st' (counter_reference m)"
      by (rule exI[of _ st''], intro conjI) (use a c d old[OF f] in simp_all)
  qed
  show ?thesis
    by (rule exI[of _ m], intro conjI) (fact st' rule wf' sep' fresh kept own others)+
qed

lemma register_dog:
  "contribute_to_class example_env
     (plain_class ''DogFactory'' (Some 0) (no_meta\<lparr>meta_model := Some (Some Dog)\<rparr>)) animal_store
   = Inr family_store"
  by (simp add: registration_defs example_defs)

text \<open>The theorem at \<^verbatim>\<open>DogFactory(AnimalFactory)\<close>: \<^verbatim>\<open>Dog\<close> is a proper subtype of
  \<^verbatim>\<open>Animal\<close>, the counter reference is \<^verbatim>\<open>AnimalFactory\<close>'s, and the first value
  of \<^verbatim>\<open>DogFactory\<close> is drawn from that counter.\<close>

theorem counter_reference_rule_witness:
  "contribute_to_class example_env
     (plain_class ''DogFactory'' (Some 0) (no_meta\<lparr>meta_model := Some (Some Dog)\<rparr>)) animal_store
     = Inr family_store
   \<and> counters_wf animal_store \<and> counters_separate animal_store \<and> (2::nat) \<le> 2
   \<and> (\<exists>m. family_store = animal_store\<lparr>metas := metas animal_store @ [m]\<rparr>
         \<and> counter_reference animal_options \<noteq> length (metas animal_store)
         \<and> counter_reference m = counter_reference animal_options
         \<and> (\<exists>st''. next_sequence 2 (\<lambda>f. 7) (length (metas animal_store)) family_store
                      = Inr (next_value (\<lambda>f. 7) family_store (counter_reference m), st'')))"
proof -
  have s: "strict_subclass Dog Animal" by (simp add: strict_subclass_def Dog_def Animal_def)
  have lk: "lookup animal_store 0 = Some animal_options"
    by (simp add: lookup_def animal_store_def)
  have md: "\<And>m. family_store = animal_store\<lparr>metas := metas animal_store @ [m]\<rparr> \<Longrightarrow> model m = Some Dog"
    by (simp add: family_store_def animal_store_def dog_options_def)
  have ma: "model animal_options = Some Animal" by (simp add: animal_options_def)
  from counter_reference_rule[OF register_dog example_stores_wf(2) example_stores_separate(3)
         order_refl, where setup_seq = "\<lambda>f. 7"]
  obtain m where m: "family_store = animal_store\<lparr>metas := metas animal_store @ [m]\<rparr>"
    and c: "counter_reference animal_options \<noteq> length (metas animal_store)
         \<and> counter_reference m =
             (if \<exists>c cb. model m = Some c \<and> model animal_options = Some cb
                       \<and> (strict_subclass c cb \<or> c = cb)
              then counter_reference animal_options else length (metas animal_store))"
    and nx: "\<exists>st''. next_sequence 2 (\<lambda>f. 7) (length (metas animal_store)) family_store
                      = Inr (next_value (\<lambda>f. 7) family_store (counter_reference m), st'')"
    by (auto simp: plain_class_def lk)
  have cr: "counter_reference m = counter_reference animal_options"
    using c md[OF m] ma s by simp
  have ex: "\<exists>m. family_store = animal_store\<lparr>metas := metas animal_store @ [m]\<rparr>
         \<and> counter_reference animal_options \<noteq> length (metas animal_store)
         \<and> counter_reference m = counter_reference animal_options
         \<and> (\<exists>st''. next_sequence 2 (\<lambda>f. 7) (length (metas animal_store)) family_store
                      = Inr (next_value (\<lambda>f. 7) family_store (counter_reference m), st''))"
    by (rule exI[of _ m], intro conjI) (fact m c[THEN conjunct1] cr nx)+
  show ?thesis
    by (intro conjI) (fact register_dog example_stores_wf(2) example_stores_separate(3) order_refl ex)+
qed


text \<open>Two classes named alike are two classes: a definition whose target type is the
  second \<^verbatim>\<open>Animal\<close> is its own counter reference under \<^verbatim>\<open>AnimalFactory\<close>. A class
  registered as a virtual subclass is a subclass: \<^verbatim>\<open>Robot\<close> under a base whose target
  type is \<^verbatim>\<open>Pet\<close> takes the base's counter reference. Every class is a subclass of
  \<^verbatim>\<open>object\<close>.\<close>

lemma counter_reference_examples:
  "get_counter_reference animal_store 1 (Some Animal2) (Some 0) = Inr 1"
  "get_counter_reference \<lparr>metas = [animal_options\<lparr>model := Some Pet\<rparr>], counters = []\<rparr> 1
     (Some Robot) (Some 0) = Inr 0"
  "get_counter_reference \<lparr>metas = [animal_options\<lparr>model := Some Object\<rparr>], counters = []\<rparr> 1
     (Some Dog) (Some 0) = Inr 0"
  "get_counter_reference animal_store 1 (Some Robot) (Some 0) = Inr 1"
  by (simp_all add: get_counter_reference_def lookup_def animal_store_def animal_options_def
        FactoryOptions_init_def Animal_def Animal2_def Pet_def Robot_def Dog_def)

text \<open>The claim as stated gives a definition with the same target type as its base a
  counter of its own. \<^verbatim>\<open>PuppyFactory(DogFactory)\<close> with no \<^verbatim>\<open>Meta.model\<close> inherits
  the target type \<^verbatim>\<open>Dog\<close> and shares the counter reference 0.\<close>

theorem counter_reference_equal_models_counterexample:
  "map_sum id (\<lambda>st. map (\<lambda>m. (map_option cname (model m), counter_reference m)) (metas st))
     (contribute_to_class example_env (plain_class ''PuppyFactory'' (Some 1) no_meta) family_store)
     = Inr [(Some ''Animal'', 0), (Some ''Dog'', 0), (Some ''Dog'', 0)]
   \<and> \<not> strict_subclass Dog Dog"
  by (simp add: registration_defs example_defs strict_subclass_def)

subsection \<open>C3: cyclic parameters\<close>

lemma revdep_edges_iff:
  "(n, d) \<in> revdep_edges env params \<longleftrightarrow>
     (\<exists>p. (n, p) \<in> set params \<and> is_Parameter env p \<and> d \<in> set (get_revdeps env p params))"
  by (auto simp: revdep_edges_def split: if_splits)

lemma dd_touch_distinct: "distinct (map fst d) \<Longrightarrow> distinct (map fst (dd_touch k d))"
  by (auto simp: dd_touch_def split: option.splits dest: map_of_eq_None_iff[THEN iffD1])

lemma dd_touch_get [simp]: "dd_get (dd_touch k d) j = dd_get d j"
  by (auto simp: dd_touch_def dd_get_def split: option.splits if_splits)

lemma dd_touch_keep: "map_of d j = Some s \<Longrightarrow> map_of (dd_touch k d) j = Some s"
  by (auto simp: dd_touch_def split: option.splits)

lemma touch_all_distinct:
  "distinct (map fst d) \<Longrightarrow> distinct (map fst (foldl (\<lambda>d dep. dd_touch dep d) d ds))"
  by (induction ds arbitrary: d) (simp_all add: dd_touch_distinct)

lemma touch_all_get [simp]: "dd_get (foldl (\<lambda>d dep. dd_touch dep d) d ds) j = dd_get d j"
  by (induction ds arbitrary: d) simp_all

lemma touch_all_keep:
  "map_of d j = Some s \<Longrightarrow> map_of (foldl (\<lambda>d dep. dd_touch dep d) d ds) j = Some s"
  by (induction ds arbitrary: d) (simp_all add: dd_touch_keep)

lemma dd_get_update: "dd_get (AList.update k v d) j = (if j = k then v else dd_get d j)"
  by (simp add: dd_get_def update_conv')

lemma add_revdeps_deep:
  assumes "add_revdeps name ds (deep, deps) = (deep', deps')"
  shows "dd_get deep' j = (if j = name then \<Union> (dd_get deep ` set ds) \<union> set ds else dd_get deep j)"
    and "map_of deep' name = Some (\<Union> (dd_get deep ` set ds) \<union> set ds)"
    and "j \<noteq> name \<Longrightarrow> map_of deep j = Some s \<Longrightarrow> map_of deep' j = Some s"
    and "distinct (map fst deep) \<Longrightarrow> distinct (map fst deep')"
  using assms
  by (auto simp: add_revdeps_def Let_def dd_get_update update_conv' touch_all_keep
        touch_all_distinct distinct_update)

lemma scan_append:
  "scan_parameters env ps (xs @ ys) acc = scan_parameters env ps ys (scan_parameters env ps xs acc)"
  by (induction env ps xs acc rule: scan_parameters.induct) (simp_all add: Let_def)

lemma scan_distinct:
  "distinct (map fst (fst acc)) \<Longrightarrow> distinct (map fst (fst (scan_parameters env ps xs acc)))"
proof (induction env ps xs acc rule: scan_parameters.induct)
  case (1 env params acc)
  then show ?case by simp
next
  case (2 env params name parameter rest acc)
  obtain deep deps where acc: "acc = (deep, deps)" by (cases acc)
  obtain deep' deps' where a: "add_revdeps name (get_revdeps env parameter params) (deep, deps) = (deep', deps')"
    by (cases "add_revdeps name (get_revdeps env parameter params) (deep, deps)")
  show ?case using 2 acc a add_revdeps_deep(4)[OF a]
    by (auto simp: Let_def)
qed

lemma scan_keep:
  "name \<notin> fst ` set xs \<Longrightarrow> map_of (fst acc) name = Some s \<Longrightarrow>
   map_of (fst (scan_parameters env ps xs acc)) name = Some s"
proof (induction env ps xs acc rule: scan_parameters.induct)
  case (1 env params acc)
  then show ?case by simp
next
  case (2 env params n parameter rest acc)
  obtain deep deps where acc: "acc = (deep, deps)" by (cases acc)
  obtain deep' deps' where a: "add_revdeps n (get_revdeps env parameter params) (deep, deps) = (deep', deps')"
    by (cases "add_revdeps n (get_revdeps env parameter params) (deep, deps)")
  have ne: "name \<noteq> n" using "2.prems"(1) by auto
  show ?case using 2 acc a add_revdeps_deep(3)[OF a ne]
    by (auto simp: Let_def)
qed

lemma scan_one:
  assumes "is_Parameter env p" and "d \<in> set (get_revdeps env p ps)"
  shows "\<exists>s. map_of (fst (scan_parameters env ps [(n, p)] acc)) n = Some s
            \<and> d \<in> s \<and> dd_get (fst acc) d \<subseteq> s"
proof -
  obtain deep deps where acc: "acc = (deep, deps)" by (cases acc)
  obtain deep' deps' where a: "add_revdeps n (get_revdeps env p ps) (deep, deps) = (deep', deps')"
    by (cases "add_revdeps n (get_revdeps env p ps) (deep, deps)")
  have ne: "get_revdeps env p ps \<noteq> []" using assms(2) by auto
  show ?thesis using assms acc a add_revdeps_deep(2)[OF a] ne
    by (auto simp: Let_def)
qed

lemma scan_split:
  "scan_parameters env ps (xs @ x # ys) acc
     = scan_parameters env ps ys (scan_parameters env ps [x] (scan_parameters env ps xs acc))"
  using scan_append[of env ps xs "x # ys" acc] scan_append[of env ps "[x]" ys] by simp

lemma scan_self_loop:
  assumes "distinct (map fst ps)" and "(a, pa) \<in> set ps" and "is_Parameter env pa"
    and "a \<in> set (get_revdeps env pa ps)"
  shows "\<exists>s. map_of (fst (scan_parameters env ps ps acc)) a = Some s \<and> a \<in> s"
proof -
  obtain xs ys where sp: "ps = xs @ (a, pa) # ys" using split_list[OF assms(2)] by blast
  have nys: "a \<notin> fst ` set ys" using assms(1) sp by auto
  let ?acc1 = "scan_parameters env ps xs acc"
  obtain s where s: "map_of (fst (scan_parameters env ps [(a, pa)] ?acc1)) a = Some s" "a \<in> s"
    using scan_one[OF assms(3,4)] by blast
  have "scan_parameters env ps ps acc = scan_parameters env ps (xs @ (a, pa) # ys) acc"
    by (rule arg_cong[where f = "\<lambda>l. scan_parameters env ps l acc"]) (rule sp)
  also have "\<dots> = scan_parameters env ps ys (scan_parameters env ps [(a, pa)] ?acc1)"
    by (simp only: scan_split)
  finally have "map_of (fst (scan_parameters env ps ps acc)) a = Some s"
    using scan_keep[OF nys s(1)] by (simp only:)
  then show ?thesis using s(2) by blast
qed

lemma scan_two_cycle_ordered:
  assumes "distinct (map fst ps)" and sp: "ps = xs @ (a, pa) # ys @ (b, pb) # zs"
    and "is_Parameter env pa" and "b \<in> set (get_revdeps env pa ps)"
    and "is_Parameter env pb" and "a \<in> set (get_revdeps env pb ps)"
  shows "\<exists>s. map_of (fst (scan_parameters env ps ps acc)) b = Some s \<and> b \<in> s"
proof -
  have nys: "a \<notin> fst ` set ys" and nzs: "b \<notin> fst ` set zs" using assms(1) sp by auto
  let ?acc1 = "scan_parameters env ps xs acc"
  let ?acc2 = "scan_parameters env ps [(a, pa)] ?acc1"
  let ?acc3 = "scan_parameters env ps ys ?acc2"
  let ?acc4 = "scan_parameters env ps [(b, pb)] ?acc3"
  obtain sa where sa: "map_of (fst ?acc2) a = Some sa" "b \<in> sa"
    using scan_one[OF assms(3,4)] by blast
  have sa3: "map_of (fst ?acc3) a = Some sa" using scan_keep[OF nys sa(1)] .
  then have ga: "dd_get (fst ?acc3) a = sa" by (simp add: dd_get_def)
  obtain sb where sb: "map_of (fst ?acc4) b = Some sb" "dd_get (fst ?acc3) a \<subseteq> sb"
    using scan_one[OF assms(5,6)] by blast
  have bsb: "b \<in> sb" using sb(2) ga sa(2) by auto
  have "scan_parameters env ps ps acc
          = scan_parameters env ps (xs @ (a, pa) # ys @ (b, pb) # zs) acc"
    by (rule arg_cong[where f = "\<lambda>l. scan_parameters env ps l acc"]) (rule sp)
  also have "\<dots> = scan_parameters env ps zs ?acc4"
    by (simp only: scan_split)
  finally have "map_of (fst (scan_parameters env ps ps acc)) b = Some sb"
    using scan_keep[OF nzs sb(1)] by (simp only:)
  then show ?thesis using bsb by blast
qed

lemma two_members_split:
  assumes "x \<in> set xs" "y \<in> set xs" "x \<noteq> y"
  shows "(\<exists>as bs cs. xs = as @ x # bs @ y # cs) \<or> (\<exists>as bs cs. xs = as @ y # bs @ x # cs)"
proof -
  obtain as bs where sp: "xs = as @ x # bs" using split_list[OF assms(1)] by blast
  then have "y \<in> set as \<or> y \<in> set bs" using assms(2,3) by auto
  then show ?thesis
  proof
    assume "y \<in> set as"
    then obtain as1 as2 where "as = as1 @ y # as2" using split_list by fastforce
    then have "xs = as1 @ y # as2 @ x # bs" using sp by simp
    then show ?thesis by blast
  next
    assume "y \<in> set bs"
    then obtain bs1 bs2 where "bs = bs1 @ y # bs2" using split_list by fastforce
    then have "xs = as @ x # bs1 @ y # bs2" using sp by simp
    then show ?thesis by blast
  qed
qed

lemma scan_two_cycle:
  assumes "distinct (map fst ps)" and "(a, pa) \<in> set ps" and "(b, pb) \<in> set ps"
    and "is_Parameter env pa" and "b \<in> set (get_revdeps env pa ps)"
    and "is_Parameter env pb" and "a \<in> set (get_revdeps env pb ps)"
  shows "\<exists>n s. (n = a \<or> n = b) \<and> map_of (fst (scan_parameters env ps ps acc)) n = Some s \<and> n \<in> s"
proof (cases "a = b")
  case True
  then have "pa = pb" using assms(1-3) by (metis eq_key_imp_eq_value)
  then show ?thesis using scan_self_loop[OF assms(1,2,4)] assms(5) True by blast
next
  case False
  then have "(a, pa) \<noteq> (b, pb)" by simp
  from two_members_split[OF assms(2,3) this]
  show ?thesis
  proof
    assume "\<exists>as bs cs. ps = as @ (a, pa) # bs @ (b, pb) # cs"
    then obtain as bs cs where "ps = as @ (a, pa) # bs @ (b, pb) # cs" by blast
    from scan_two_cycle_ordered[OF assms(1) this assms(4-7)] show ?thesis by blast
  next
    assume "\<exists>as bs cs. ps = as @ (b, pb) # bs @ (a, pa) # cs"
    then obtain as bs cs where "ps = as @ (b, pb) # bs @ (a, pa) # cs" by blast
    from scan_two_cycle_ordered[OF assms(1) this assms(6,7,4,5)] show ?thesis by blast
  qed
qed

lemma scan_sound:
  assumes "closure_sound (revdep_edges env ps) (fst acc)" and "set xs \<subseteq> set ps"
  shows "closure_sound (revdep_edges env ps) (fst (scan_parameters env ps xs acc))"
  using assms
proof (induction env ps xs acc rule: scan_parameters.induct)
  case (1 env params acc)
  then show ?case by simp
next
  case (2 env params name parameter rest acc)
  obtain deep deps where acc: "acc = (deep, deps)" by (cases acc)
  let ?ds = "get_revdeps env parameter params"
  obtain deep' deps' where a: "add_revdeps name ?ds (deep, deps) = (deep', deps')"
    by (cases "add_revdeps name ?ds (deep, deps)")
  have rest: "set rest \<subseteq> set params" and mem: "(name, parameter) \<in> set params"
    using "2.prems"(2) by auto
  show ?case
  proof (cases "is_Parameter env parameter \<and> ?ds \<noteq> []")
    case False
    then show ?thesis using 2 rest by (auto simp: Let_def)
  next
    case True
    have edge: "(name, d) \<in> revdep_edges env params" if "d \<in> set ?ds" for d
      using that True mem by (auto simp: revdep_edges_iff)
    have "closure_sound (revdep_edges env params) deep'"
      unfolding closure_sound_def
    proof (intro allI impI)
      fix n d assume d: "d \<in> dd_get deep' n"
      show "(n, d) \<in> (revdep_edges env params)\<^sup>+"
      proof (cases "n = name")
        case False
        then show ?thesis using d add_revdeps_deep(1)[OF a, of n] "2.prems"(1) acc
          by (simp add: closure_sound_def)
      next
        case True
        then have "d \<in> \<Union> (dd_get deep ` set ?ds) \<union> set ?ds"
          using d add_revdeps_deep(1)[OF a, of n] by simp
        then show ?thesis
        proof
          assume "d \<in> \<Union> (dd_get deep ` set ?ds)"
          then obtain e where e: "e \<in> set ?ds" "d \<in> dd_get deep e" by blast
          then have "(e, d) \<in> (revdep_edges env params)\<^sup>+"
            using "2.prems"(1) acc by (simp add: closure_sound_def)
          then show ?thesis using edge[OF e(1)] True by (metis trancl_into_trancl2)
        next
          assume "d \<in> set ?ds"
          then show ?thesis using edge True by blast
        qed
      qed
    qed
    then show ?thesis using "2.IH"(2)[of ?ds] True a acc rest by (simp add: Let_def)
  qed
qed


lemma member_nonempty: "x \<in> set xs \<Longrightarrow> xs \<noteq> []"
  by auto

lemma nonempty_member: "xs \<noteq> [] \<Longrightarrow> \<exists>x. x \<in> set xs"
  by (cases xs) auto

lemma closure_sound_Nil: "closure_sound E []"
  by (simp add: closure_sound_def dd_get_def)

lemma cyclic_names_iff:
  assumes "distinct (map fst deep)"
  shows "n \<in> set (map fst (filter (\<lambda>(name, field_deps). name \<in> field_deps) deep))
           \<longleftrightarrow> (\<exists>s. map_of deep n = Some s \<and> n \<in> s)"
  using assms by (auto simp: image_iff dest: map_of_SomeD)

lemma check_cases:
  "check_parameter_dependencies env self_ref params =
     (let deep = fst (scan_parameters env params params ([], []));
          cyclic = map fst (filter (\<lambda>(name, field_deps). name \<in> field_deps) deep)
      in if cyclic \<noteq> [] then Inl (CyclicDefinitionError self_ref cyclic)
         else Inr (snd (scan_parameters env params params ([], []))))"
  by (simp add: check_parameter_dependencies_def Let_def split: prod.splits)

text \<open>
  What the one-pass closure of \<^verbatim>\<open>_check_parameter_dependencies\<close> does establish, for a
  parameter mapping (a dictionary, so with distinct names): when \<open>a\<close> declares \<open>b\<close> among
  its reverse dependencies and \<open>b\<close> declares \<open>a\<close>, the cyclic-definition error is raised
  and lists one of the two at least; an acyclic mapping raises nothing; and every name the
  error lists lies on a cycle of the reverse-dependency graph.
\<close>

lemma check_parameter_dependencies_sound:
  assumes "distinct (map fst params)"
  shows "((a, pa) \<in> set params \<and> (b, pb) \<in> set params
          \<and> is_Parameter env pa \<and> is_Parameter env pb
          \<and> b \<in> set (get_revdeps env pa params) \<and> a \<in> set (get_revdeps env pb params)
          \<longrightarrow> (\<exists>names. check_parameter_dependencies env self_ref params
                          = Inl (CyclicDefinitionError self_ref names)
                      \<and> (a \<in> set names \<or> b \<in> set names)
                      \<and> finish_registration env self_ref (self\<lparr>parameters := params\<rparr>) st
                          = Inl (CyclicDefinitionError self_ref names)))
       \<and> (acyclic (revdep_edges env params)
          \<longrightarrow> (\<exists>deps. check_parameter_dependencies env self_ref params = Inr deps))
       \<and> (\<forall>names. check_parameter_dependencies env self_ref params
                      = Inl (CyclicDefinitionError self_ref names)
            \<longrightarrow> (\<forall>n \<in> set names. (n, n) \<in> (revdep_edges env params)\<^sup>+))"
proof -
  let ?final = "scan_parameters env params params ([], [])"
  let ?deep = "fst ?final"
  let ?cyclic = "map fst (filter (\<lambda>(name, field_deps). name \<in> field_deps) ?deep)"
  have dist: "distinct (map fst ?deep)" by (rule scan_distinct) simp
  have sound: "closure_sound (revdep_edges env params) ?deep"
    by (rule scan_sound) (simp_all add: closure_sound_Nil)
  have on_cycle: "(n, n) \<in> (revdep_edges env params)\<^sup>+" if nc: "n \<in> set ?cyclic" for n
  proof -
    obtain s where "map_of ?deep n = Some s" "n \<in> s"
      using nc cyclic_names_iff[OF dist, of n] by blast
    then have "n \<in> dd_get ?deep n" by (simp add: dd_get_def)
    then show ?thesis using sound by (simp add: closure_sound_def)
  qed
  have res: "check_parameter_dependencies env self_ref params =
       (if ?cyclic \<noteq> [] then Inl (CyclicDefinitionError self_ref ?cyclic) else Inr (snd ?final))"
    by (simp add: check_cases Let_def)
  have part1: "\<exists>names. check_parameter_dependencies env self_ref params
                          = Inl (CyclicDefinitionError self_ref names)
                      \<and> (a \<in> set names \<or> b \<in> set names)
                      \<and> finish_registration env self_ref (self\<lparr>parameters := params\<rparr>) st
                          = Inl (CyclicDefinitionError self_ref names)"
    if h: "(a, pa) \<in> set params" "(b, pb) \<in> set params" "is_Parameter env pa"
      "is_Parameter env pb" "b \<in> set (get_revdeps env pa params)"
      "a \<in> set (get_revdeps env pb params)"
  proof -
    obtain n s where n: "n = a \<or> n = b" "map_of ?deep n = Some s" "n \<in> s"
      using scan_two_cycle[OF assms h(1,2,3,5,4,6), of "([], [])"] by blast
    then have mem: "n \<in> set ?cyclic" using cyclic_names_iff[OF dist, of n] by blast
    have ne: "?cyclic \<noteq> []" by (rule member_nonempty[OF mem])
    have c: "check_parameter_dependencies env self_ref params
               = Inl (CyclicDefinitionError self_ref ?cyclic)"
      using res ne by simp
    have "finish_registration env self_ref (self\<lparr>parameters := params\<rparr>) st
               = Inl (CyclicDefinitionError self_ref ?cyclic)"
      by (simp add: finish_registration_def c)
    then show ?thesis using c mem n(1) by blast
  qed
  have part2: "\<exists>deps. check_parameter_dependencies env self_ref params = Inr deps"
    if ac: "acyclic (revdep_edges env params)"
  proof -
    have "?cyclic = []"
    proof (rule ccontr)
      assume ne: "?cyclic \<noteq> []"
      from nonempty_member[OF ne] obtain n where "n \<in> set ?cyclic" ..
      from on_cycle[OF this] show False using ac by (simp add: acyclic_def)
    qed
    then show ?thesis using res by simp
  qed
  have part3: "\<forall>n \<in> set names. (n, n) \<in> (revdep_edges env params)\<^sup>+"
    if ce: "check_parameter_dependencies env self_ref params
          = Inl (CyclicDefinitionError self_ref names)" for names
  proof -
    have "names = ?cyclic" using ce res by (auto split: if_splits)
    then show ?thesis using on_cycle by blast
  qed
  show ?thesis using part1 part2 part3 by blast
qed

lemmas check_defs =
  check_parameter_dependencies_def add_revdeps_def dd_touch_def dd_get_def example_env_def

lemma ring_edges:
  "revdep_edges example_env ring_params = {(''a'', ''b''), (''b'', ''c''), (''c'', ''a'')}"
  by (auto simp: revdep_edges_def example_env_def ring_params_def)

lemma ring_is_cyclic: "(''a'', ''a'') \<in> (revdep_edges example_env ring_params)\<^sup>+"
proof -
  let ?E = "revdep_edges example_env ring_params"
  have "(''a'', ''b'') \<in> ?E\<^sup>+" unfolding ring_edges by (rule r_into_trancl) simp
  moreover have "(''b'', ''c'') \<in> ?E" unfolding ring_edges by simp
  ultimately have "(''a'', ''c'') \<in> ?E\<^sup>+" by (rule trancl_into_trancl)
  moreover have "(''c'', ''a'') \<in> ?E" unfolding ring_edges by simp
  ultimately show ?thesis by (rule trancl_into_trancl)
qed

text \<open>The diamond of the specification is acyclic and passes the check; for two
  parameters that each override themselves the error lists them in the order of the
  table, \<^verbatim>\<open>z\<close> before \<^verbatim>\<open>a\<close>.\<close>

lemma check_examples:
  "check_parameter_dependencies example_env 0 diamond_params
     = Inr [(''d'', {''a'', ''b''}), (''a'', {''c''}), (''b'', {''c''})]"
  "check_parameter_dependencies example_env 0 loops_params
     = Inl (CyclicDefinitionError 0 [''z'', ''a''])"
  by (auto simp: check_defs diamond_params_def loops_params_def)

text \<open>
  C3. The claim has the error name both parameters of a cycle, sorted. The loop at lines
  511 to 519 fills the table of indirect dependencies in one pass over the mapping and
  never goes back to a parameter it has scanned, so the table is not the transitive
  closure that the comment at line 506 announces. With \<^verbatim>\<open>premium\<close> and
  \<^verbatim>\<open>active\<close> overriding each other, registration raises the error and the list names
  \<^verbatim>\<open>active\<close>, the parameter scanned last, and not \<^verbatim>\<open>premium\<close>. With \<^verbatim>\<open>a\<close>
  overriding \<^verbatim>\<open>b\<close>, \<^verbatim>\<open>b\<close> overriding \<^verbatim>\<open>c\<close> and \<^verbatim>\<open>c\<close> overriding \<^verbatim>\<open>a\<close>,
  the check returns the direct dependencies and the definition is registered, although
  \<^verbatim>\<open>a\<close> reaches itself in the reverse-dependency graph.
\<close>

theorem cyclic_parameters_incomplete:
  "contribute_to_class example_env (params_class ''UserFactory'' cyclic_params) empty_store
     = Inl (CyclicDefinitionError 0 [''active''])
   \<and> check_parameter_dependencies example_env 0 ring_params
     = Inr [(''b'', {''a''}), (''c'', {''b''}), (''a'', {''c''})]
   \<and> map_sum id (\<lambda>st. map (\<lambda>m. (factory_name m, parameters m)) (metas st))
       (contribute_to_class example_env (params_class ''UserFactory'' ring_params) empty_store)
     = Inr [(''UserFactory'', ring_params)]
   \<and> (''a'', ''a'') \<in> (revdep_edges example_env ring_params)\<^sup>+"
proof -
  have a: "contribute_to_class example_env (params_class ''UserFactory'' cyclic_params) empty_store
     = Inl (CyclicDefinitionError 0 [''active''])"
    by (simp add: registration_defs example_defs params_class_def cyclic_params_def
          add_revdeps_def dd_touch_def dd_get_def)
  have b: "check_parameter_dependencies example_env 0 ring_params
     = Inr [(''b'', {''a''}), (''c'', {''b''}), (''a'', {''c''})]"
    by (simp add: check_defs ring_params_def)
  have c: "map_sum id (\<lambda>st. map (\<lambda>m. (factory_name m, parameters m)) (metas st))
       (contribute_to_class example_env (params_class ''UserFactory'' ring_params) empty_store)
     = Inr [(''UserFactory'', ring_params)]"
    by (simp add: registration_defs example_defs params_class_def ring_params_def
          add_revdeps_def dd_touch_def dd_get_def)
  show ?thesis using a b c ring_is_cyclic by simp
qed


subsection \<open>C4: the abstract guard\<close>

lemmas generate_defs = generate_def build_def create_def stub_def factory_call_def
  BUILD_STRATEGY_def CREATE_STRATEGY_def STUB_STRATEGY_def

text \<open>
  C4, as the code has it. A definition registered with no target type is abstract, and
  \<^verbatim>\<open>build\<close>, \<^verbatim>\<open>create\<close> and \<^verbatim>\<open>stub\<close> on it all raise the configuration error
  naming the definition, whatever the step builder would do: nothing is constructed. The
  stub strategy needs no target type only inside \<^verbatim>\<open>instantiate\<close>, which does not
  consult the model: it returns the attribute container built from the keyword mapping,
  or the \<^verbatim>\<open>TypeError\<close> of \<^verbatim>\<open>StubObject\<close> for a keyword named \<^verbatim>\<open>self\<close>.
\<close>

theorem abstract_guard:
  assumes "contribute_to_class env cd st = Inr st'"
    and "lookup st' (length (metas st)) = Some m" and "model m = None"
  shows "abstract m
       \<and> build step_build (length (metas st)) kwargs st' = Inl (FactoryError (cd_name cd))
       \<and> create step_build (length (metas st)) kwargs st' = Inl (FactoryError (cd_name cd))
       \<and> stub step_build (length (metas st)) kwargs st' = Inl (FactoryError (cd_name cd))
       \<and> instantiate build_hook create_hook m STUB_STRATEGY args kws
           = (if ''self'' \<in> set (map fst kws) then Inl (TypeError ''self'')
              else Inr (StubObject kws))"
proof -
  from contribute_to_class_shape[OF assms(1)]
  obtain m' r where st': "st' = st\<lparr>metas := metas st @ [m']\<rparr>"
    and "counter m' = None" and "counter_reference m' = r"
    and "get_counter_reference st (length (metas st)) (model m') (cd_base_factory cd) = Inr r"
    and a: "model m' = None \<longrightarrow> abstract m'" and n: "factory_name m' = cd_name cd"
    by (elim exE conjE)
  have "m = m'" using assms(2) st' by (simp add: lookup_def)
  then have "abstract m" "factory_name m = cd_name cd" using a n assms(3) by auto
  then show ?thesis using assms(2)
    by (simp add: generate_def build_def create_def stub_def instantiate_def new_StubObject_def
          BUILD_STRATEGY_def CREATE_STRATEGY_def STUB_STRATEGY_def)
qed

lemma register_abstract:
  "contribute_to_class example_env
     (plain_class ''ShapeFactory'' None (no_meta\<lparr>meta_strategy := Some ''stub''\<rparr>)) empty_store
   = Inr \<lparr>metas = [abstract_options], counters = []\<rparr>"
  by (simp add: registration_defs example_defs abstract_options_def)

text \<open>The theorem at \<^verbatim>\<open>ShapeFactory\<close>, registered with the stub strategy and no
  model.\<close>

theorem abstract_guard_witness:
  "contribute_to_class example_env
     (plain_class ''ShapeFactory'' None (no_meta\<lparr>meta_strategy := Some ''stub''\<rparr>)) empty_store
     = Inr \<lparr>metas = [abstract_options], counters = []\<rparr>
   \<and> lookup \<lparr>metas = [abstract_options], counters = []\<rparr> (length (metas empty_store))
       = Some abstract_options
   \<and> model abstract_options = None
   \<and> abstract abstract_options
   \<and> build stub_builder 0 [(''sides'', 3)] \<lparr>metas = [abstract_options], counters = []\<rparr>
       = Inl (FactoryError ''ShapeFactory'')
   \<and> stub stub_builder 0 [(''sides'', 3)] \<lparr>metas = [abstract_options], counters = []\<rparr>
       = Inl (FactoryError ''ShapeFactory'')"
proof -
  have lk: "lookup \<lparr>metas = [abstract_options], counters = []\<rparr> (length (metas empty_store))
       = Some abstract_options"
    by (simp add: lookup_def empty_store_def)
  have mo: "model abstract_options = None"
    by (simp add: abstract_options_def FactoryOptions_init_def)
  have nm: "cd_name (plain_class ''ShapeFactory'' None (no_meta\<lparr>meta_strategy := Some ''stub''\<rparr>))
              = ''ShapeFactory''"
    by (simp add: plain_class_def)
  have z: "length (metas empty_store) = 0" by (simp add: empty_store_def)
  note g = abstract_guard[OF register_abstract lk mo, where step_build = stub_builder
             and kwargs = "[(''sides'', 3)]" and build_hook = "\<lambda>c a k. Inr ()"
             and create_hook = "\<lambda>c a k. Inr ()" and args = "[]" and kws = "[]",
             unfolded nm z]
  show ?thesis
    using register_abstract lk mo g[THEN conjunct1] g[THEN conjunct2, THEN conjunct1]
      g[THEN conjunct2, THEN conjunct2, THEN conjunct2, THEN conjunct1]
    by simp
qed

text \<open>The claim as stated lets \<^verbatim>\<open>stub\<close> succeed on a definition without a target
  type. \<^verbatim>\<open>_generate\<close> checks the abstract flag before it looks at the strategy.\<close>

theorem stub_without_model_counterexample:
  "(case contribute_to_class example_env
           (plain_class ''ShapeFactory'' None (no_meta\<lparr>meta_strategy := Some ''stub''\<rparr>))
           empty_store of
      Inl e \<Rightarrow> Inl e
    | Inr st \<Rightarrow> stub stub_builder 0 [(''sides'', 3)] st)
   = Inl (FactoryError ''ShapeFactory'')"
  by (simp add: register_abstract abstract_options_def FactoryOptions_init_def generate_defs lookup_def)

subsection \<open>C5: unrecognised strategy names\<close>

lemma fill_from_meta_strategy:
  "fill_from_meta self_ref self (Some (mt\<lparr>meta_strategy := Some s\<rparr>)) base_meta
     = map_sum id (\<lambda>x. x\<lparr>strategy := s\<rparr>)
         (fill_from_meta self_ref self (Some (mt\<lparr>meta_strategy := Some t\<rparr>)) base_meta)"
  by (simp add: fill_from_meta_def Let_def apply_option_def)

lemma force_abstract_strategy:
  "force_abstract (x\<lparr>strategy := s\<rparr>) = (force_abstract x)\<lparr>strategy := s\<rparr>"
  by (simp add: force_abstract_def)

lemma force_abstract_model: "model (force_abstract x) = model x"
  by (simp add: force_abstract_def)

lemma collect_declarations_strategy:
  "collect_declarations env (cd\<lparr>cd_meta := mt\<rparr>) ps (x\<lparr>strategy := s\<rparr>)
     = (collect_declarations env (cd\<lparr>cd_meta := mt'\<rparr>) ps x)\<lparr>strategy := s\<rparr>"
  by (simp add: collect_declarations_def Let_def)

lemma derive_auto_fields_strategy:
  "derive_auto_fields env ps (x\<lparr>strategy := s\<rparr>) = derive_auto_fields env ps x"
  by (simp add: derive_auto_fields_def auto_field_names_def Let_def
        cong: sum.case_cong prod.case_cong if_cong)

lemma collect_parameters_strategy:
  "collect_parameters env (cd\<lparr>cd_meta := mt\<rparr>) (x\<lparr>strategy := s\<rparr>)
     = (collect_parameters env (cd\<lparr>cd_meta := mt'\<rparr>) x)\<lparr>strategy := s\<rparr>"
  by (simp add: collect_parameters_def split: option.splits)

lemma finish_registration_strategy:
  "finish_registration env r (x\<lparr>strategy := s\<rparr>) st
     = map_sum id (\<lambda>st'. st'\<lparr>metas := (metas st')[length (metas st) :=
                                   (metas st' ! length (metas st))\<lparr>strategy := s\<rparr>]\<rparr>)
         (finish_registration env r x st)"
  by (simp add: finish_registration_def declarations_def split: sum.splits prod.splits)

lemma strategy_swap:
  "x\<lparr>strategy := s, base_declarations := d\<rparr> = x\<lparr>base_declarations := d, strategy := s\<rparr>"
  by simp

lemma contribute_strategy_independent:
  "contribute_to_class env (cd\<lparr>cd_meta := Some (mt\<lparr>meta_strategy := Some s\<rparr>)\<rparr>) st
     = map_sum id (\<lambda>st'. st'\<lparr>metas := (metas st')[length (metas st) :=
                                   (metas st' ! length (metas st))\<lparr>strategy := s\<rparr>]\<rparr>)
         (contribute_to_class env (cd\<lparr>cd_meta := Some (mt\<lparr>meta_strategy := Some t\<rparr>)\<rparr>) st)"
proof -
  let ?cs = "cd\<lparr>cd_meta := Some (mt\<lparr>meta_strategy := Some s\<rparr>)\<rparr>"
  let ?ct = "cd\<lparr>cd_meta := Some (mt\<lparr>meta_strategy := Some t\<rparr>)\<rparr>"
  let ?self0 = "(FactoryOptions_init (cd_name cd) (length (metas st)))\<lparr>base_factory := cd_base_factory cd\<rparr>"
  show ?thesis
  proof (cases "resolve_base_meta st (cd_base_meta cd)")
    case (Inl e)
    then show ?thesis by (simp add: contribute_to_class_def)
  next
    case bm: (Inr base_meta)
    show ?thesis
    proof (cases "fill_from_meta (length (metas st)) ?self0 (Some (mt\<lparr>meta_strategy := Some t\<rparr>)) base_meta")
      case (Inl e)
      then show ?thesis
        using bm fill_from_meta_strategy[where self_ref = "length (metas st)" and self = ?self0 and mt = mt
              and s = s and base_meta = base_meta and t = t]
        by (simp add: contribute_to_class_def)
    next
      case f: (Inr self1)
      have fs: "fill_from_meta (length (metas st)) ?self0 (Some (mt\<lparr>meta_strategy := Some s\<rparr>)) base_meta
                  = Inr (self1\<lparr>strategy := s\<rparr>)"
        using f fill_from_meta_strategy[where self_ref = "length (metas st)" and self = ?self0 and mt = mt
              and s = s and base_meta = base_meta and t = t] by simp
      show ?thesis
      proof (cases "get_counter_reference st (length (metas st)) (model self1) (base_factory self1)")
        case (Inl e)
        then show ?thesis using bm f fs
          by (simp add: contribute_to_class_def force_abstract_model)
      next
        case g: (Inr r)
        show ?thesis
        proof (cases "parent_metas st (rev (cd_mro cd))")
          case (Inl e)
          then show ?thesis using bm f fs g
            by (simp add: contribute_to_class_def force_abstract_model)
        next
          case p: (Inr factory_parents)
          let ?x = "(force_abstract self1)\<lparr>counter_reference := r\<rparr>"
          have x: "(force_abstract (self1\<lparr>strategy := s\<rparr>))\<lparr>counter_reference := r\<rparr> = ?x\<lparr>strategy := s\<rparr>"
            by (simp add: force_abstract_strategy)
          let ?y = "collect_declarations env ?ct factory_parents ?x"
          have y: "collect_declarations env ?cs factory_parents (?x\<lparr>strategy := s\<rparr>) = ?y\<lparr>strategy := s\<rparr>"
            by (rule collect_declarations_strategy)
          have d: "derive_auto_fields env factory_parents (?y\<lparr>strategy := s\<rparr>)
                     = derive_auto_fields env factory_parents ?y"
            by (rule derive_auto_fields_strategy)
          show ?thesis
          proof (cases "derive_auto_fields env factory_parents ?y")
            case (Inl e)
            then show ?thesis using bm f fs g p x y d
              by (simp add: contribute_to_class_def force_abstract_model)
          next
            case dd: (Inr decls)
            have z: "collect_parameters env ?cs (?y\<lparr>strategy := s, base_declarations := decls\<rparr>)
                       = (collect_parameters env ?ct (?y\<lparr>base_declarations := decls\<rparr>))\<lparr>strategy := s\<rparr>"
              unfolding strategy_swap by (rule collect_parameters_strategy)
            show ?thesis using bm f fs g p x y d dd z
              by (simp add: contribute_to_class_def force_abstract_model finish_registration_strategy
                    Let_def)
          qed
        qed
      qed
    qed
  qed
qed


text \<open>
  C5, as the code has it. Registration does not look at the strategy name: registering
  with the name \<open>s\<close> has the outcome of registering with \<^verbatim>\<open>create\<close>, the same error
  or the same store, except that the stored name is \<open>s\<close>. The unknown-strategy error is
  raised by the default-strategy call \<^verbatim>\<open>Factory(**kwargs)\<close>, for every stored name
  other than the three strategies.
\<close>

theorem strategy_checked_at_call:
  "contribute_to_class env (cd\<lparr>cd_meta := Some (mt\<lparr>meta_strategy := Some s\<rparr>)\<rparr>) st
     = map_sum id (\<lambda>st'. st'\<lparr>metas := (metas st')[length (metas st) :=
                                   (metas st' ! length (metas st))\<lparr>strategy := s\<rparr>]\<rparr>)
         (contribute_to_class env (cd\<lparr>cd_meta := Some (mt\<lparr>meta_strategy := Some CREATE_STRATEGY\<rparr>)\<rparr>) st)
   \<and> (lookup st cls = Some m \<and> strategy m \<notin> {BUILD_STRATEGY, CREATE_STRATEGY, STUB_STRATEGY}
        \<longrightarrow> factory_call step_build cls kwargs st = Inl (UnknownStrategy (strategy m)))"
  using contribute_strategy_independent[where env = env and cd = cd and mt = mt and s = s
          and st = st and t = CREATE_STRATEGY]
  by (simp add: factory_call_def)

lemma register_parcel:
  "contribute_to_class example_env
     (plain_class ''ParcelFactory'' None
        (no_meta\<lparr>meta_model := Some (Some Animal), meta_strategy := Some ''express''\<rparr>))
     empty_store
   = Inr \<lparr>metas = [parcel_options], counters = []\<rparr>"
  by (simp add: registration_defs example_defs parcel_options_def)

text \<open>The theorem at \<^verbatim>\<open>ParcelFactory\<close>, whose strategy is \<^verbatim>\<open>express\<close>.\<close>

theorem strategy_checked_at_call_witness:
  "lookup \<lparr>metas = [parcel_options], counters = []\<rparr> 0 = Some parcel_options
   \<and> strategy parcel_options \<notin> {BUILD_STRATEGY, CREATE_STRATEGY, STUB_STRATEGY}
   \<and> factory_call stub_builder 0 [] \<lparr>metas = [parcel_options], counters = []\<rparr>
       = Inl (UnknownStrategy ''express'')"
proof -
  have lk: "lookup \<lparr>metas = [parcel_options], counters = []\<rparr> 0 = Some parcel_options"
    by (simp add: lookup_def)
  have ns: "strategy parcel_options \<notin> {BUILD_STRATEGY, CREATE_STRATEGY, STUB_STRATEGY}"
    by (simp add: parcel_options_def BUILD_STRATEGY_def CREATE_STRATEGY_def STUB_STRATEGY_def)
  have sx: "strategy parcel_options = ''express''" by (simp add: parcel_options_def)
  note c = strategy_checked_at_call[where st = "\<lparr>metas = [parcel_options], counters = []\<rparr>"
              and cls = 0 and m = parcel_options and step_build = stub_builder and kwargs = "[]",
            THEN conjunct2, rule_format, OF conjI, OF lk ns, unfolded sx]
  show ?thesis using lk ns c by simp
qed

text \<open>The claim as stated has registration fail. Registering \<^verbatim>\<open>ParcelFactory\<close>
  with the strategy \<^verbatim>\<open>express\<close> succeeds; the error comes when the definition is
  called.\<close>

theorem unknown_strategy_registers_counterexample:
  "contribute_to_class example_env
     (plain_class ''ParcelFactory'' None
        (no_meta\<lparr>meta_model := Some (Some Animal), meta_strategy := Some ''express''\<rparr>))
     empty_store
   = Inr \<lparr>metas = [parcel_options], counters = []\<rparr>
   \<and> strategy parcel_options = ''express''
   \<and> factory_call stub_builder 0 [] \<lparr>metas = [parcel_options], counters = []\<rparr>
       = Inl (UnknownStrategy ''express'')"
  by (simp add: register_parcel parcel_options_def FactoryOptions_init_def factory_call_def
        lookup_def BUILD_STRATEGY_def CREATE_STRATEGY_def STUB_STRATEGY_def)


subsection \<open>C7: candidate field names\<close>








subsection \<open>C8: preparing the arguments\<close>

lemma map_of_swap_None:
  "k \<notin> set (map snd rn) \<Longrightarrow> map_of (map (\<lambda>(old_name, new_name). (new_name, old_name)) rn) k = None"
  by (induction rn) auto

lemma map_of_swap_Some:
  "map_of (map (\<lambda>(old_name, new_name). (new_name, old_name)) rn) k = Some o' \<Longrightarrow> o' \<in> set (map fst rn)"
  by (induction rn) (auto split: if_splits)

lemma rename_fields_spec:
  assumes "distinct (map fst kwargs)" and "distinct (map fst rn)" and "distinct (map snd rn)"
    and "set (map fst rn) \<subseteq> set (map fst kwargs)"
    and "set (map snd rn) \<inter> set (map fst kwargs) = {}"
  shows "\<exists>kwargs'. rename_fields rn kwargs = Inr kwargs' \<and> distinct (map fst kwargs')
           \<and> map_of kwargs' = renamed rn (map_of kwargs)"
  using assms
proof (induction rn arbitrary: kwargs)
  case Nil
  then show ?case by (simp add: renamed_def fun_eq_iff)
next
  case (Cons item rn)
  obtain old_name new_name where item: "item = (old_name, new_name)" by (cases item)
  have old_in: "old_name \<in> set (map fst kwargs)" using Cons.prems(4) item by simp
  then obtain v where v: "map_of kwargs old_name = Some v"
    by (metis map_of_eq_None_iff not_None_eq set_map)
  let ?kw1 = "AList.update new_name v (AList.delete old_name kwargs)"
  have new_fresh: "new_name \<notin> set (map fst kwargs)" using Cons.prems(5) item by auto
  have ne: "new_name \<noteq> old_name" using old_in new_fresh by auto
  have keys1: "set (map fst ?kw1) = insert new_name (set (map fst kwargs) - {old_name})"
    by (auto simp: AList.update_keys AList.delete_keys)
  have d1: "distinct (map fst ?kw1)"
    by (intro AList.distinct_update AList.distinct_delete Cons.prems(1))
  have d2: "distinct (map fst rn)" and d3: "distinct (map snd rn)"
    and old_nr: "old_name \<notin> set (map fst rn)" and new_nr: "new_name \<notin> set (map snd rn)"
    using Cons.prems(2,3) item by auto
  have s1: "set (map fst rn) \<subseteq> set (map fst ?kw1)"
    using Cons.prems(4) old_nr unfolding keys1 by auto
  have s2: "set (map snd rn) \<inter> set (map fst ?kw1) = {}"
    using Cons.prems(5) new_nr unfolding keys1 by auto
  obtain kwargs' where r: "rename_fields rn ?kw1 = Inr kwargs'" and dk: "distinct (map fst kwargs')"
    and mk: "map_of kwargs' = renamed rn (map_of ?kw1)"
    using Cons.IH[OF d1 d2 d3 s1 s2] by blast
  have m1: "map_of ?kw1 = ((map_of kwargs)(old_name := None))(new_name \<mapsto> v)"
    by (simp add: AList.update_conv' AList.delete_conv')
  have new_ns: "new_name \<notin> set (map fst rn)" using Cons.prems(4) new_fresh by auto
  have eq: "renamed rn (map_of ?kw1) k = renamed (item # rn) (map_of kwargs) k" for k
  proof (cases "k = new_name")
    case True
    then show ?thesis
      using map_of_swap_None[OF new_nr] new_ns v ne
      by (simp add: renamed_def item m1)
  next
    case kn: False
    show ?thesis
    proof (cases "map_of (map (\<lambda>(old_name, new_name). (new_name, old_name)) rn) k")
      case None
      then show ?thesis using kn old_nr by (auto simp: renamed_def item m1)
    next
      case (Some o')
      then have "o' \<in> set (map fst rn)" by (rule map_of_swap_Some)
      then have "o' \<noteq> old_name" "o' \<noteq> new_name" using old_nr new_ns by auto
      then show ?thesis using Some kn by (simp add: renamed_def item m1)
    qed
  qed
  have "rename_fields (item # rn) kwargs = Inr kwargs'" using r v item by simp
  moreover have "map_of kwargs' = renamed (item # rn) (map_of kwargs)"
    using mk eq by (simp add: fun_eq_iff)
  ultimately show ?case using dk by blast
qed

lemma extract_inline_args_spec:
  assumes "distinct names" and "set names \<subseteq> set (map fst kwargs)"
  shows "\<exists>args kwargs'. extract_inline_args names kwargs = Inr (args, kwargs')
           \<and> map Some args = map (map_of kwargs) names
           \<and> map_of kwargs' = (\<lambda>k. if k \<in> set names then None else map_of kwargs k)"
  using assms
proof (induction names arbitrary: kwargs)
  case Nil
  then show ?case by simp
next
  case (Cons n names)
  have "n \<in> set (map fst kwargs)" using Cons.prems(2) by simp
  then obtain v where v: "map_of kwargs n = Some v"
    by (metis map_of_eq_None_iff not_None_eq set_map)
  let ?kw1 = "AList.delete n kwargs"
  have nn: "n \<notin> set names" and d: "distinct names" using Cons.prems(1) by auto
  have s: "set names \<subseteq> set (map fst ?kw1)"
    using Cons.prems(2) nn by (auto simp: AList.delete_keys)
  obtain args kwargs' where e: "extract_inline_args names ?kw1 = Inr (args, kwargs')"
    and a: "map Some args = map (map_of ?kw1) names"
    and m: "map_of kwargs' = (\<lambda>k. if k \<in> set names then None else map_of ?kw1 k)"
    using Cons.IH[OF d s] by blast
  have a': "map (map_of ?kw1) names = map (map_of kwargs) names"
    using nn by (auto simp: AList.delete_conv')
  have "extract_inline_args (n # names) kwargs = Inr (v # args, kwargs')"
    using e v by simp
  moreover have "map Some (v # args) = map (map_of kwargs) (n # names)"
    using a a' v by simp
  moreover have "map_of kwargs' = (\<lambda>k. if k \<in> set (n # names) then None else map_of kwargs k)"
    using m by (auto simp: fun_eq_iff AList.delete_conv')
  ultimately show ?case by blast
qed

lemma map_of_visible:
  "distinct (map fst kwargs) \<Longrightarrow>
   map_of (filter (visible self) kwargs) k =
     (case map_of kwargs k of
        None \<Rightarrow> None
      | Some v \<Rightarrow> if k \<in> set (exclude self) \<or> k \<in> set (map fst (parameters self)) \<or> v = SKIP
                  then None else Some v)"
proof (induction kwargs)
  case Nil
  then show ?case by simp
next
  case (Cons kv kwargs)
  obtain a b where kv: "kv = (a, b)" by (cases kv)
  have na: "map_of kwargs a = None" using Cons.prems kv by (simp add: map_of_eq_None_iff)
  show ?case using Cons kv na by (auto simp: visible_def split: option.splits)
qed

lemmas article_defs =
  article_options_def renaming_options_def article_attributes_def FactoryOptions_init_def

lemma article_prepared:
  "prepare_arguments Inr article_options article_attributes = Inr ([Val 1], [(''size'', Val 4)])"
  by (simp add: prepare_arguments_def visible_def article_defs)

text \<open>
  The inputs on which the four steps of \<^verbatim>\<open>prepare_arguments\<close> go through. Let the hook
  return a mapping with distinct names, let every declared name of the rename map still
  be present after the removal step, let the constructor names be distinct and absent
  after the removal step, and let the inline names be distinct and present after
  renaming. Then \<^verbatim>\<open>prepare_arguments\<close> returns: the removal step drops exactly the
  excluded names, the names of parameters and the entries holding the skip sentinel; the
  positional tuple holds the values of the inline names, in their declared order, read
  after renaming; and the keyword mapping is the renamed mapping without the inline
  names, every other entry unchanged.
\<close>

lemma prepare_arguments_pipeline:
  assumes "adjust_kwargs attributes = Inr adjusted"
    and "distinct (map fst adjusted)"
    and "distinct (map fst (rename self))" and "distinct (map snd (rename self))"
    and "set (map fst (rename self)) \<subseteq> set (map fst (filter (visible self) adjusted))"
    and "set (map snd (rename self)) \<inter> set (map fst (filter (visible self) adjusted)) = {}"
    and "distinct (inline_args self)"
    and "\<forall>n \<in> set (inline_args self).
           renamed (rename self) (map_of (filter (visible self) adjusted)) n \<noteq> None"
  shows "\<exists>args kwargs.
           prepare_arguments adjust_kwargs self attributes = Inr (args, kwargs)
         \<and> map Some args
             = map (renamed (rename self) (map_of (filter (visible self) adjusted)))
                 (inline_args self)
         \<and> map_of kwargs
             = (\<lambda>k. if k \<in> set (inline_args self) then None
                    else renamed (rename self) (map_of (filter (visible self) adjusted)) k)
         \<and> map_of (filter (visible self) adjusted)
             = (\<lambda>k. case map_of adjusted k of
                      None \<Rightarrow> None
                    | Some v \<Rightarrow>
                        if k \<in> set (exclude self) \<or> k \<in> set (map fst (parameters self))
                           \<or> v = SKIP
                        then None else Some v)"
proof -
  let ?kept = "filter (visible self) adjusted"
  have dk: "distinct (map fst ?kept)" using assms(2) by (simp add: distinct_map_filter)
  obtain kw1 where r: "rename_fields (rename self) ?kept = Inr kw1"
    and m1: "map_of kw1 = renamed (rename self) (map_of ?kept)"
    using rename_fields_spec[OF dk assms(3,4,5,6)] by blast
  have keys: "set (inline_args self) \<subseteq> set (map fst kw1)"
  proof
    fix n assume "n \<in> set (inline_args self)"
    then have "map_of kw1 n \<noteq> None" using assms(8) m1 by simp
    then show "n \<in> set (map fst kw1)" by (simp add: map_of_eq_None_iff)
  qed
  obtain args kwargs where e: "extract_inline_args (inline_args self) kw1 = Inr (args, kwargs)"
    and a: "map Some args = map (map_of kw1) (inline_args self)"
    and m: "map_of kwargs = (\<lambda>k. if k \<in> set (inline_args self) then None else map_of kw1 k)"
    using extract_inline_args_spec[OF assms(7) keys] by blast
  have p: "prepare_arguments adjust_kwargs self attributes = Inr (args, kwargs)"
    using assms(1) r e by (simp add: prepare_arguments_def)
  have v: "map_of ?kept
             = (\<lambda>k. case map_of adjusted k of
                      None \<Rightarrow> None
                    | Some v \<Rightarrow>
                        if k \<in> set (exclude self) \<or> k \<in> set (map fst (parameters self))
                           \<or> v = SKIP
                        then None else Some v)"
    by (rule ext) (rule map_of_visible[OF assms(2)])
  show ?thesis
    using p a m v unfolding m1 by (intro exI[of _ args] exI[of _ kwargs]) simp
qed

text \<open>
  C8. The claim covers every resolved attribute mapping. The rename step at line 460 is
  \<^verbatim>\<open>kwargs[new_name] = kwargs.pop(old_name)\<close>, with no default and no test that
  \<^verbatim>\<open>old_name\<close> is still a key. With \<^verbatim>\<open>title\<close> renamed to \<^verbatim>\<open>name\<close>:
  when \<^verbatim>\<open>title\<close> holds the skip sentinel, or is excluded, the removal step has taken it
  out, \<^verbatim>\<open>pop\<close> raises \<^verbatim>\<open>KeyError\<close> and nothing is returned, not even the entry
  \<^verbatim>\<open>size\<close> that the steps leave alone; when \<^verbatim>\<open>title\<close> holds a value the steps go
  through.
\<close>

theorem prepare_arguments_missing_rename:
  "prepare_arguments Inr renaming_options [(''title'', SKIP), (''size'', Val (4::int))]
     = Inl (KeyError ''title'')
   \<and> prepare_arguments Inr (renaming_options\<lparr>exclude := [''title'']\<rparr>)
       [(''title'', Val 1), (''size'', Val (4::int))]
     = Inl (KeyError ''title'')
   \<and> prepare_arguments Inr renaming_options [(''title'', Val 1), (''size'', Val (4::int))]
     = Inr ([], [(''size'', Val 4), (''name'', Val 1)])"
  by (simp add: prepare_arguments_def visible_def article_defs)


subsection \<open>C10: the stub strategy and inline arguments\<close>

lemma extract_inline_args_absent:
  "extract_inline_args names kwargs = Inr (args, kwargs') \<Longrightarrow>
     set (map fst kwargs') \<subseteq> set (map fst kwargs) - set names \<and> length args = length names"
proof (induction names arbitrary: kwargs args)
  case Nil
  then show ?case by simp
next
  case (Cons n names)
  from Cons.prems obtain v args1 where v: "map_of kwargs n = Some v"
    and e: "extract_inline_args names (AList.delete n kwargs) = Inr (args1, kwargs')"
    and a: "args = v # args1"
    by (auto split: option.splits sum.splits)
  have ih: "set (map fst kwargs') \<subseteq> set (map fst (AList.delete n kwargs)) - set names
            \<and> length args1 = length names"
    using Cons.IH[OF e] .
  then show ?case using a by (auto simp: AList.delete_keys)
qed


text \<open>
  C10. Whenever \<^verbatim>\<open>prepare_arguments\<close> returns \<open>(args, kwargs)\<close>, \<^verbatim>\<open>instantiate\<close>
  under the stub strategy passes \<open>kwargs\<close> alone to \<^verbatim>\<open>StubObject\<close>: the outcome is
  the container whose attributes are the entries of \<open>kwargs\<close> (or the \<^verbatim>\<open>TypeError\<close>
  of \<^verbatim>\<open>StubObject\<close> when \<open>kwargs\<close> has the key \<^verbatim>\<open>self\<close>), and it is the same
  for any other positional tuple. \<open>args\<close> has one value per inline-positional name, and
  none of those names is a key of \<open>kwargs\<close>, so none is an attribute of the stub object.
\<close>

theorem stub_drops_inline_args:
  assumes "prepare_arguments adjust_kwargs self attributes = Inr (args, kwargs)"
  shows "instantiate build_hook create_hook self STUB_STRATEGY args kwargs
           = (if ''self'' \<in> set (map fst kwargs) then Inl (TypeError ''self'')
              else Inr (StubObject kwargs))
       \<and> instantiate build_hook create_hook self STUB_STRATEGY args kwargs
           = instantiate build_hook create_hook self STUB_STRATEGY other_args kwargs
       \<and> (\<forall>n \<in> set (inline_args self). n \<notin> set (map fst kwargs))
       \<and> length args = length (inline_args self)"
proof -
  from assms obtain adjusted kw1 where "adjust_kwargs attributes = Inr adjusted"
    and "rename_fields (rename self) (filter (visible self) adjusted) = Inr kw1"
    and e: "extract_inline_args (inline_args self) kw1 = Inr (args, kwargs)"
    by (auto simp: prepare_arguments_def split: sum.splits)
  have "set (map fst kwargs) \<subseteq> set (map fst kw1) - set (inline_args self)"
    and l: "length args = length (inline_args self)"
    using extract_inline_args_absent[OF e] by auto
  then have "\<forall>n \<in> set (inline_args self). n \<notin> set (map fst kwargs)" by auto
  moreover have "instantiate build_hook create_hook self STUB_STRATEGY args kwargs
           = (if ''self'' \<in> set (map fst kwargs) then Inl (TypeError ''self'')
              else Inr (StubObject kwargs))"
    by (simp add: instantiate_def new_StubObject_def BUILD_STRATEGY_def CREATE_STRATEGY_def
          STUB_STRATEGY_def)
  moreover have "instantiate build_hook create_hook self STUB_STRATEGY args kwargs
           = instantiate build_hook create_hook self STUB_STRATEGY other_args kwargs"
    by (simp add: instantiate_def BUILD_STRATEGY_def CREATE_STRATEGY_def STUB_STRATEGY_def)
  ultimately show ?thesis using l by simp
qed

text \<open>The theorem at \<^verbatim>\<open>article_options\<close>: \<^verbatim>\<open>name\<close> is passed positionally and
  the stub object has the attribute \<^verbatim>\<open>size\<close> only, with an empty positional tuple as
  with the extracted one.\<close>

theorem stub_drops_inline_args_witness:
  "prepare_arguments Inr article_options article_attributes = Inr ([Val 1], [(''size'', Val 4)])
   \<and> inline_args article_options = [''name'']
   \<and> instantiate (\<lambda>c a k. Inr ()) (\<lambda>c a k. Inr ()) article_options STUB_STRATEGY
        [Val (1::int)] [(''size'', Val (4::int))]
       = (Inr (StubObject [(''size'', Val (4::int))]) :: error + (unit, int attr_value) product)
   \<and> instantiate (\<lambda>c a k. Inr ()) (\<lambda>c a k. Inr ()) article_options STUB_STRATEGY
        [] [(''size'', Val (4::int))]
       = (Inr (StubObject [(''size'', Val (4::int))]) :: error + (unit, int attr_value) product)
   \<and> ''name'' \<notin> set (map fst [(''size'', Val (4::int))])"
proof -
  have i: "inline_args article_options = [''name'']" by (simp add: article_defs)
  note t = stub_drops_inline_args[OF article_prepared, where build_hook = "\<lambda>c a k. Inr ()"
             and create_hook = "\<lambda>c a k. Inr ()" and other_args = "[]"]
  have a: "instantiate (\<lambda>c a k. Inr ()) (\<lambda>c a k. Inr ()) article_options STUB_STRATEGY
        [Val (1::int)] [(''size'', Val (4::int))]
       = (Inr (StubObject [(''size'', Val (4::int))]) :: error + (unit, int attr_value) product)"
    using t[THEN conjunct1] by simp
  have b: "instantiate (\<lambda>c a k. Inr ()) (\<lambda>c a k. Inr ()) article_options STUB_STRATEGY
        [] [(''size'', Val (4::int))]
       = (Inr (StubObject [(''size'', Val (4::int))]) :: error + (unit, int attr_value) product)"
    using t[THEN conjunct2, THEN conjunct1] a by simp
  have n: "''name'' \<notin> set (map fst [(''size'', Val (4::int))])"
    using t[THEN conjunct2, THEN conjunct2, THEN conjunct1] i by simp
  show ?thesis
    by (intro conjI) (simp_all only: article_prepared i a b n not_False_eq_True)
qed

text \<open>A keyword named \<^verbatim>\<open>self\<close> cannot be passed to \<^verbatim>\<open>StubObject\<close>.\<close>

lemma stub_self_keyword:
  "instantiate (\<lambda>c a k. Inr ()) (\<lambda>c a k. Inr ()) article_options STUB_STRATEGY []
     [(''self'', Val (1::int))]
   = (Inl (TypeError ''self'') :: error + (unit, int attr_value) product)"
  by (simp add: instantiate_def new_StubObject_def BUILD_STRATEGY_def CREATE_STRATEGY_def
        STUB_STRATEGY_def)

end
